theory Spec2Isabelle
  imports Complex_Main "HOL-Library.AList" "HOL-Library.Char_ord" "HOL-Library.List_Lexorder"
    "HOL-Library.Multiset" "HOL-Library.Sublist" "HOL-Library.Word"
begin

unbundle bit_operations_syntax

section \<open>Terminal capability detection\<close>

datatype TerminalType = Ghostty | Kitty | ITerm | WezTerm | Konsole | VSCode | Warp | Standard

record TerminalInfo =
  type :: TerminalType
  supportsKittyProtocol :: bool
  supportsITerm2Protocol :: bool

text \<open>The process environment: a variable is unset (\<open>None\<close>) or holds a string.\<close>

type_synonym environment = "string \<rightharpoonup> string"

text \<open>JavaScript truthiness of \<open>env.X\<close>: set, and not the empty string.\<close>

definition truthy :: "string option \<Rightarrow> bool" where
  "truthy v = (case v of None \<Rightarrow> False | Some s \<Rightarrow> s \<noteq> [])"

definition detectTerminal :: "environment \<Rightarrow> TerminalInfo" where
  "detectTerminal env =
    (if env ''TERM'' = Some ''xterm-ghostty'' then
       \<lparr>type = Ghostty, supportsKittyProtocol = True, supportsITerm2Protocol = False\<rparr>
     else if env ''TERM'' = Some ''xterm-kitty'' \<or> truthy (env ''KITTY_WINDOW_ID'') then
       \<lparr>type = Kitty, supportsKittyProtocol = True, supportsITerm2Protocol = False\<rparr>
     else if env ''TERM_PROGRAM'' = Some ''WezTerm'' then
       \<lparr>type = WezTerm, supportsKittyProtocol = True, supportsITerm2Protocol = True\<rparr>
     else if env ''TERM_PROGRAM'' = Some ''iTerm.app'' then
       \<lparr>type = ITerm, supportsKittyProtocol = False, supportsITerm2Protocol = True\<rparr>
     else if env ''TERM_PROGRAM'' = Some ''konsole'' \<or> truthy (env ''KONSOLE_VERSION'') then
       \<lparr>type = Konsole, supportsKittyProtocol = True, supportsITerm2Protocol = False\<rparr>
     else if env ''TERM_PROGRAM'' = Some ''vscode'' then
       \<lparr>type = VSCode, supportsKittyProtocol = False, supportsITerm2Protocol = True\<rparr>
     else if env ''TERM_PROGRAM'' = Some ''WarpTerminal'' then
       \<lparr>type = Warp, supportsKittyProtocol = True, supportsITerm2Protocol = False\<rparr>
     else
       \<lparr>type = Standard, supportsKittyProtocol = False, supportsITerm2Protocol = False\<rparr>)"

text \<open>
  The specification's reading of the detector, for comparison with \<open>detectTerminal\<close>: a
  fixed, ordered table of environment signals, each with the family it announces and that
  family's static protocol flags; the first signal that is present decides, and the
  default family has neither protocol.
\<close>

definition spec_signal_table :: "((environment \<Rightarrow> bool) \<times> TerminalInfo) list" where
  "spec_signal_table =
    [(\<lambda>env. env ''TERM'' = Some ''xterm-ghostty'',
        \<lparr>type = Ghostty, supportsKittyProtocol = True, supportsITerm2Protocol = False\<rparr>),
     (\<lambda>env. env ''TERM'' = Some ''xterm-kitty'',
        \<lparr>type = Kitty, supportsKittyProtocol = True, supportsITerm2Protocol = False\<rparr>),
     (\<lambda>env. truthy (env ''KITTY_WINDOW_ID''),
        \<lparr>type = Kitty, supportsKittyProtocol = True, supportsITerm2Protocol = False\<rparr>),
     (\<lambda>env. env ''TERM_PROGRAM'' = Some ''WezTerm'',
        \<lparr>type = WezTerm, supportsKittyProtocol = True, supportsITerm2Protocol = True\<rparr>),
     (\<lambda>env. env ''TERM_PROGRAM'' = Some ''iTerm.app'',
        \<lparr>type = ITerm, supportsKittyProtocol = False, supportsITerm2Protocol = True\<rparr>),
     (\<lambda>env. env ''TERM_PROGRAM'' = Some ''konsole'',
        \<lparr>type = Konsole, supportsKittyProtocol = True, supportsITerm2Protocol = False\<rparr>),
     (\<lambda>env. truthy (env ''KONSOLE_VERSION''),
        \<lparr>type = Konsole, supportsKittyProtocol = True, supportsITerm2Protocol = False\<rparr>),
     (\<lambda>env. env ''TERM_PROGRAM'' = Some ''vscode'',
        \<lparr>type = VSCode, supportsKittyProtocol = False, supportsITerm2Protocol = True\<rparr>),
     (\<lambda>env. env ''TERM_PROGRAM'' = Some ''WarpTerminal'',
        \<lparr>type = Warp, supportsKittyProtocol = True, supportsITerm2Protocol = False\<rparr>)]"

definition spec_default_terminal :: TerminalInfo where
  "spec_default_terminal =
     \<lparr>type = Standard, supportsKittyProtocol = False, supportsITerm2Protocol = False\<rparr>"

fun spec_first_match :: "((environment \<Rightarrow> bool) \<times> TerminalInfo) list \<Rightarrow> environment \<Rightarrow> TerminalInfo" where
  "spec_first_match [] env = spec_default_terminal"
| "spec_first_match ((signal, info) # rest) env =
     (if signal env then info else spec_first_match rest env)"

section \<open>Terminal graphics renderer\<close>

text \<open>
  A \<open>Buffer\<close> is a sequence of bytes. \<open>Buffer.toString("base64")\<close> and
  \<open>process.stdout.write\<close> belong to the host runtime and may throw; the host is a
  parameter of the renderer. A write returns the exception it threw, if any, together with
  the output stream as the write left it.
\<close>

datatype exn = Exn string

record 'o host =
  toBase64 :: "8 word list \<Rightarrow> exn + string"
  stdout_write :: "string \<Rightarrow> 'o \<Rightarrow> exn option \<times> 'o"

definition ESC :: char where "ESC = CHR 0x1B"
definition BEL :: char where "BEL = CHR 0x07"
definition backslash :: char where "backslash = CHR 0x5C"
definition newline :: char where "newline = CHR 0x0A"

text \<open>\<open>String(n)\<close> for a non-negative integer: its decimal digits.\<close>

definition digit_char :: "nat \<Rightarrow> char" where
  "digit_char d = char_of (48 + d)"

function string_of_nat :: "nat \<Rightarrow> string" where
  "string_of_nat n =
     (if n < 10 then [digit_char n] else string_of_nat (n div 10) @ [digit_char (n mod 10)])"
  by pat_completeness auto
termination
  by (relation "measure (\<lambda>n. n)") auto

declare string_of_nat.simps [simp del]

text \<open>
  One control frame of the Kitty graphics protocol. The first frame carries the action and
  the format as well as the more-data flag \<open>m\<close>; a later frame carries \<open>m\<close> only.
\<close>

datatype kitty_frame = KittyFrame (first: bool) (moreData: bool) (chunk: string)

definition frame_text :: "kitty_frame \<Rightarrow> string" where
  "frame_text f =
     (if first f
      then [ESC] @ ''_Ga=T,f=100,m='' @ (if moreData f then ''1'' else ''0'') @ '';'' @ chunk f
             @ [ESC, backslash]
      else [ESC] @ ''_Gm='' @ (if moreData f then ''1'' else ''0'') @ '';'' @ chunk f
             @ [ESC, backslash])"

definition chunkSize :: nat where "chunkSize = 4096"

text \<open>
  The loop of \<open>displayKittyProtocol\<close>, from index \<open>i\<close>: \<open>slice(i, i + chunkSize)\<close> is
  \<open>take chunkSize (drop i base64Data)\<close>. An exception of a write leaves the loop.
\<close>

function kitty_loop :: "'o host \<Rightarrow> string \<Rightarrow> nat \<Rightarrow> 'o \<Rightarrow> exn option \<times> 'o" where
  "kitty_loop h base64Data i out =
     (if i < length base64Data then
        (let chunk = take chunkSize (drop i base64Data);
             isLast = (i + chunkSize \<ge> length base64Data);
             written =
               (if i = 0
                then stdout_write h (frame_text (KittyFrame True (\<not> isLast) chunk)) out
                else stdout_write h (frame_text (KittyFrame False (\<not> isLast) chunk)) out)
         in case written of
              (Some e, out') \<Rightarrow> (Some e, out')
            | (None, out') \<Rightarrow> kitty_loop h base64Data (i + chunkSize) out')
      else (None, out))"
  by pat_completeness auto
termination
  by (relation "measure (\<lambda>(h, base64Data, i, out). length base64Data - i)")
     (auto simp: chunkSize_def)

declare kitty_loop.simps [simp del]

definition displayKittyProtocol :: "'o host \<Rightarrow> 8 word list \<Rightarrow> 'o \<Rightarrow> exn option \<times> 'o" where
  "displayKittyProtocol h pngBuffer out =
     (case toBase64 h pngBuffer of
        Inl e \<Rightarrow> (Some e, out)
      | Inr base64Data \<Rightarrow>
          (case kitty_loop h base64Data 0 out of
             (Some e, out') \<Rightarrow> (Some e, out')
           | (None, out') \<Rightarrow> stdout_write h [newline] out'))"

definition displayITerm2Protocol :: "'o host \<Rightarrow> 8 word list \<Rightarrow> 'o \<Rightarrow> exn option \<times> 'o" where
  "displayITerm2Protocol h pngBuffer out =
     (case toBase64 h pngBuffer of
        Inl e \<Rightarrow> (Some e, out)
      | Inr base64Data \<Rightarrow>
          (case toBase64 h (map of_char ''codex-wrapped-noyrlimit.png'') of
             Inl e \<Rightarrow> (Some e, out)
           | Inr filename \<Rightarrow>
               stdout_write h
                 ([ESC] @ '']1337;File=name='' @ filename @ '';size=''
                    @ string_of_nat (length pngBuffer) @ '';inline=1:'' @ base64Data
                    @ [BEL, newline])
                 out))"

text \<open>
  \<open>displayInTerminal\<close>: the \<open>try\<close> block returns \<open>true\<close> after a protocol function
  returned, and the \<open>catch\<close> turns every exception into \<open>false\<close>. The result is the
  boolean the promise resolves to, with the output stream.
\<close>

definition displayInTerminal :: "'o host \<Rightarrow> environment \<Rightarrow> 8 word list \<Rightarrow> 'o \<Rightarrow> bool \<times> 'o" where
  "displayInTerminal h env pngBuffer out =
     (let terminal = detectTerminal env in
      if supportsKittyProtocol terminal then
        (case displayKittyProtocol h pngBuffer out of
           (None, out') \<Rightarrow> (True, out')
         | (Some e, out') \<Rightarrow> (False, out'))
      else if supportsITerm2Protocol terminal then
        (case displayITerm2Protocol h pngBuffer out of
           (None, out') \<Rightarrow> (True, out')
         | (Some e, out') \<Rightarrow> (False, out'))
      else (False, out))"

text \<open>
  The reference host: standard base64 with padding, as Node's \<open>Buffer\<close> produces it, and
  an output stream that records every write in order and never throws.
\<close>

definition base64_alphabet :: string where
  "base64_alphabet = ''ABCDEFGHIJKLMNOPQRSTUVWXYZabcdefghijklmnopqrstuvwxyz0123456789+/''"

definition base64_char :: "8 word \<Rightarrow> char" where
  "base64_char w = base64_alphabet ! unat (w AND 63)"

fun base64_encode :: "8 word list \<Rightarrow> string" where
  "base64_encode [] = []"
| "base64_encode [a] =
     [base64_char (drop_bit 2 a), base64_char (push_bit 4 (a AND 3)), CHR ''='', CHR ''='']"
| "base64_encode [a, b] =
     [base64_char (drop_bit 2 a), base64_char (push_bit 4 (a AND 3) OR drop_bit 4 b),
      base64_char (push_bit 2 (b AND 15)), CHR ''='']"
| "base64_encode (a # b # c # rest) =
     [base64_char (drop_bit 2 a), base64_char (push_bit 4 (a AND 3) OR drop_bit 4 b),
      base64_char (push_bit 2 (b AND 15) OR drop_bit 6 c), base64_char (c AND 63)]
     @ base64_encode rest"

definition node_host :: "string list host" where
  "node_host =
     \<lparr>toBase64 = (\<lambda>buffer. Inr (base64_encode buffer)),
      stdout_write = (\<lambda>text out. (None, out @ [text]))\<rparr>"

section \<open>Usage events\<close>

text \<open>
  Token counts are JavaScript numbers holding integers; they are modelled as unbounded
  integers, which is exact as long as every sum stays below \<open>2 ^ 53\<close>.
\<close>

record CodexUsageEvent =
  model :: string
  inputTokens :: int
  cachedInputTokens :: int
  outputTokens :: int
  reasoningOutputTokens :: int
  totalTokens :: int

definition getEventTotal :: "CodexUsageEvent \<Rightarrow> int" where
  "getEventTotal event =
     (let computed = CodexUsageEvent.inputTokens event + CodexUsageEvent.outputTokens event
      in max (CodexUsageEvent.totalTokens event) computed)"

section \<open>Provider resolution\<close>

record ModelInfo =
  id :: string
  name :: string
  provider :: string

record ProviderInfo =
  id :: string
  name :: string

record ModelsDevData =
  models :: "string \<rightharpoonup> ModelInfo"
  providers :: "string \<rightharpoonup> ProviderInfo"

text \<open>\<open>cachedData.models[modelId]?.provider\<close> is used when it is a non-empty string.\<close>

definition getModelProvider :: "ModelsDevData \<Rightarrow> string \<Rightarrow> string" where
  "getModelProvider cachedData modelId =
     (case models cachedData modelId of
        Some info \<Rightarrow> if provider info \<noteq> [] then provider info else ''unknown''
      | None \<Rightarrow> ''unknown'')"

definition resolveProviderId :: "ModelsDevData \<Rightarrow> string \<Rightarrow> string" where
  "resolveProviderId cachedData modelId =
     (let provider = getModelProvider cachedData modelId in
      if provider \<noteq> [] \<and> provider \<noteq> ''unknown'' then provider
      else if prefix ''gpt'' modelId \<or> prefix ''openai'' modelId then ''openai''
      else ''openai'')"

section \<open>Usage event aggregation\<close>

record ModelUsageTotals =
  inputTokens :: int
  cachedInputTokens :: int
  outputTokens :: int
  reasoningTokens :: int
  totalTokens :: int

text \<open>
  A JavaScript \<open>Map\<close> keeps its keys in insertion order: it is an association list with
  distinct keys, \<open>get\<close> is \<open>map_of\<close>, and \<open>set\<close> is \<open>AList.update\<close>, which replaces
  the value of a present key in place and appends an absent key at the end.
\<close>

type_synonym 'v js_map = "(string \<times> 'v) list"

definition getOrCreateModelUsage ::
    "ModelUsageTotals js_map \<Rightarrow> string \<Rightarrow> ModelUsageTotals js_map \<times> ModelUsageTotals" where
  "getOrCreateModelUsage map' modelId =
     (case map_of map' modelId of
        Some existing \<Rightarrow> (map', existing)
      | None \<Rightarrow>
          (let fresh = \<lparr>inputTokens = 0, cachedInputTokens = 0, outputTokens = 0,
                         reasoningTokens = 0, totalTokens = 0\<rparr>
           in (AList.update modelId fresh map', fresh)))"

text \<open>The variables of the accumulation loop of \<open>calculateStats\<close>.\<close>

record UsageTotals =
  modelUsageTotals :: "ModelUsageTotals js_map"
  totalInputTokens :: int
  totalCachedInputTokens :: int
  totalOutputTokens :: int
  totalReasoningTokens :: int
  totalTokens :: int

definition noUsage :: UsageTotals where
  "noUsage =
     \<lparr>modelUsageTotals = [], totalInputTokens = 0, totalCachedInputTokens = 0,
      totalOutputTokens = 0, totalReasoningTokens = 0, totalTokens = 0\<rparr>"

text \<open>
  One iteration of the loop over \<open>usageData.events\<close>. The object returned by
  \<open>getOrCreateModelUsage\<close> is the one stored in the map, so the updates of its fields are
  updates of the map's entry.
\<close>

definition addEvent :: "UsageTotals \<Rightarrow> CodexUsageEvent \<Rightarrow> UsageTotals" where
  "addEvent s event =
     (let eventTotal = getEventTotal event;
          (map', usage) = getOrCreateModelUsage (modelUsageTotals s) (model event);
          usage' =
            \<lparr>inputTokens = ModelUsageTotals.inputTokens usage + CodexUsageEvent.inputTokens event,
             cachedInputTokens =
               ModelUsageTotals.cachedInputTokens usage + CodexUsageEvent.cachedInputTokens event,
             outputTokens = ModelUsageTotals.outputTokens usage + CodexUsageEvent.outputTokens event,
             reasoningTokens = reasoningTokens usage + reasoningOutputTokens event,
             totalTokens = ModelUsageTotals.totalTokens usage + eventTotal\<rparr>
      in \<lparr>modelUsageTotals = AList.update (model event) usage' map',
          totalInputTokens = totalInputTokens s + CodexUsageEvent.inputTokens event,
          totalCachedInputTokens = totalCachedInputTokens s + CodexUsageEvent.cachedInputTokens event,
          totalOutputTokens = totalOutputTokens s + CodexUsageEvent.outputTokens event,
          totalReasoningTokens = totalReasoningTokens s + reasoningOutputTokens event,
          totalTokens = UsageTotals.totalTokens s + eventTotal\<rparr>)"

definition aggregateUsage :: "CodexUsageEvent list \<Rightarrow> UsageTotals" where
  "aggregateUsage events = foldl addEvent noUsage events"

text \<open>
  The specification's reading of a model's totals, for comparison with the loop: the sums
  of the counts of that model's events.
\<close>

definition spec_model_totals :: "string \<Rightarrow> CodexUsageEvent list \<Rightarrow> ModelUsageTotals" where
  "spec_model_totals modelId events =
     (let own = filter (\<lambda>event. model event = modelId) events in
      \<lparr>inputTokens = sum_list (map CodexUsageEvent.inputTokens own),
       cachedInputTokens = sum_list (map CodexUsageEvent.cachedInputTokens own),
       outputTokens = sum_list (map CodexUsageEvent.outputTokens own),
       reasoningTokens = sum_list (map reasoningOutputTokens own),
       totalTokens = sum_list (map getEventTotal own)\<rparr>)"

section \<open>Ranking\<close>

record ModelStats =
  id :: string
  name :: string
  providerId :: string
  count :: int
  percentage :: rat

record ProviderStats =
  id :: string
  name :: string
  count :: int
  percentage :: rat

text \<open>
  The loop over \<open>modelUsageTotals.entries()\<close>: a model whose token total is not positive
  is skipped; otherwise its provider's count grows and the model is pushed with percentage
  0. The display names come from lookups that do not touch the counts; they are
  parameters.
\<close>

definition tokenTotal :: "ModelUsageTotals \<Rightarrow> int" where
  "tokenTotal usage =
     (if ModelUsageTotals.totalTokens usage > 0 then ModelUsageTotals.totalTokens usage
      else ModelUsageTotals.inputTokens usage + ModelUsageTotals.outputTokens usage
             + reasoningTokens usage)"

definition addModel ::
    "ModelsDevData \<Rightarrow> (string \<Rightarrow> string) \<Rightarrow> int js_map \<times> ModelStats list
       \<Rightarrow> string \<times> ModelUsageTotals \<Rightarrow> int js_map \<times> ModelStats list" where
  "addModel cachedData getModelDisplayName acc entry =
     (let (providerCounts, modelStats) = acc;
          (modelId, usage) = entry
      in if tokenTotal usage \<le> 0 then (providerCounts, modelStats)
         else
           (let providerId = resolveProviderId cachedData modelId
            in (AList.update providerId
                  ((case map_of providerCounts providerId of None \<Rightarrow> 0 | Some c \<Rightarrow> c)
                     + tokenTotal usage)
                  providerCounts,
                modelStats @
                  [\<lparr>ModelStats.id = modelId, ModelStats.name = getModelDisplayName modelId,
                    providerId = providerId, ModelStats.count = tokenTotal usage,
                    ModelStats.percentage = 0\<rparr>])))"

definition collectModelStats ::
    "ModelsDevData \<Rightarrow> (string \<Rightarrow> string) \<Rightarrow> ModelUsageTotals js_map
       \<Rightarrow> int js_map \<times> ModelStats list" where
  "collectModelStats cachedData getModelDisplayName usage =
     foldl (addModel cachedData getModelDisplayName) ([], []) usage"

definition percentageDenominator :: "UsageTotals \<Rightarrow> ModelStats list \<Rightarrow> int" where
  "percentageDenominator s modelStats =
     (let totalModelTokens = foldl (\<lambda>sum model. sum + ModelStats.count model) 0 modelStats
      in if UsageTotals.totalTokens s > 0 then UsageTotals.totalTokens s else totalModelTokens)"

definition percentageOf :: "int \<Rightarrow> int \<Rightarrow> rat" where
  "percentageOf count' denominator =
     (if denominator > 0 then (of_int count' / of_int denominator) * 100 else 0)"

text \<open>
  \<open>Array.prototype.sort\<close> is stable; with the comparator \<open>b.count - a.count\<close> it is the
  stable sort by descending count, which is \<open>sort_key\<close> on the negated count.
\<close>

definition topModels ::
    "ModelsDevData \<Rightarrow> (string \<Rightarrow> string) \<Rightarrow> UsageTotals \<Rightarrow> ModelStats list" where
  "topModels cachedData getModelDisplayName s =
     (let (providerCounts, modelStats) =
            collectModelStats cachedData getModelDisplayName (modelUsageTotals s);
          denominator = percentageDenominator s modelStats
      in map (\<lambda>model. model\<lparr>ModelStats.percentage :=
                                 percentageOf (ModelStats.count model) denominator\<rparr>)
           (take 3 (sort_key (\<lambda>model. - ModelStats.count model) modelStats)))"

definition topProviders ::
    "ModelsDevData \<Rightarrow> (string \<Rightarrow> string) \<Rightarrow> (string \<Rightarrow> string) \<Rightarrow> UsageTotals
       \<Rightarrow> ProviderStats list" where
  "topProviders cachedData getModelDisplayName getProviderDisplayName s =
     (let (providerCounts, modelStats) =
            collectModelStats cachedData getModelDisplayName (modelUsageTotals s);
          denominator = percentageDenominator s modelStats
      in map (\<lambda>(id', count').
                \<lparr>ProviderStats.id = id', ProviderStats.name = getProviderDisplayName id',
                 ProviderStats.count = count',
                 ProviderStats.percentage = percentageOf count' denominator\<rparr>)
           (take 3 (sort_key (\<lambda>entry. - snd entry) providerCounts)))"

section \<open>Dates\<close>

text \<open>
  The calendar is the proleptic Gregorian calendar of JavaScript's \<open>Date\<close>. Months are
  numbered from 1 in the functions below; \<open>days_from_civil\<close> is the number of days from
  1970-01-01 to the given date.
\<close>

definition is_leap_year :: "int \<Rightarrow> bool" where
  "is_leap_year y = (y mod 4 = 0 \<and> (y mod 100 \<noteq> 0 \<or> y mod 400 = 0))"

definition days_in_month :: "int \<Rightarrow> nat \<Rightarrow> nat" where
  "days_in_month y m =
     (if m = 2 then (if is_leap_year y then 29 else 28)
      else if m = 4 \<or> m = 6 \<or> m = 9 \<or> m = 11 then 30 else 31)"

definition days_before_month :: "int \<Rightarrow> nat \<Rightarrow> nat" where
  "days_before_month y m =
     [0, 31, 59, 90, 120, 151, 181, 212, 243, 273, 304, 334] ! (m - 1)
       + (if 2 < m \<and> is_leap_year y then 1 else 0)"

definition leap_years_before :: "int \<Rightarrow> int" where
  "leap_years_before y = (y - 1) div 4 - (y - 1) div 100 + (y - 1) div 400"

definition days_from_civil :: "int \<Rightarrow> nat \<Rightarrow> nat \<Rightarrow> int" where
  "days_from_civil y m d =
     365 * (y - 1970) + (leap_years_before y - leap_years_before 1970)
       + int (days_before_month y m) + int d - 1"

definition msPerDay :: int where
  "msPerDay = 1000 * 60 * 60 * 24"

text \<open>
  \<open>new Date(key).getTime()\<close> for a date key. A date-only string \<open>YYYY-MM-DD\<close> is read as
  midnight UTC of that calendar date; a string that is not a calendar date of this form
  gives an invalid date, whose time value is \<open>NaN\<close> (\<open>None\<close>).
\<close>

definition is_digit :: "char \<Rightarrow> bool" where
  "is_digit c = (CHR ''0'' \<le> c \<and> c \<le> CHR ''9'')"

definition digit_value :: "char \<Rightarrow> nat" where
  "digit_value c = of_char c - 48"

definition number_of_digits :: "string \<Rightarrow> nat" where
  "number_of_digits ds = foldl (\<lambda>n c. 10 * n + digit_value c) 0 ds"

definition parseDate :: "string \<Rightarrow> int option" where
  "parseDate key =
     (if length key = 10 \<and> key ! 4 = CHR ''-'' \<and> key ! 7 = CHR ''-''
         \<and> list_all is_digit (take 4 key) \<and> list_all is_digit (take 2 (drop 5 key))
         \<and> list_all is_digit (drop 8 key)
      then
        (let y = int (number_of_digits (take 4 key));
             m = number_of_digits (take 2 (drop 5 key));
             d = number_of_digits (drop 8 key)
         in if 1 \<le> m \<and> m \<le> 12 \<and> 1 \<le> d \<and> d \<le> days_in_month y m
            then Some (days_from_civil y m d * msPerDay) else None)
      else None)"

text \<open>
  \<open>getDay()\<close> of a time value, in a local zone that is \<open>tzOffset\<close> minutes ahead of UTC:
  the weekday of the local calendar day, Sunday = 0. 1970-01-01 was a Thursday.
\<close>

definition getDay :: "int \<Rightarrow> int \<Rightarrow> nat" where
  "getDay tzOffset time = nat (((time + tzOffset * 60000) div msPerDay + 4) mod 7)"

text \<open>
  A \<open>Date\<close> read through its local calendar fields, as \<open>getFullYear\<close>, \<open>getMonth\<close> (from 0)
  and \<open>getDate\<close> return them. The local zone is taken to have a fixed offset from UTC, so
  the instant 24 hours earlier falls on the previous calendar day.
\<close>

record Date =
  getFullYear :: int
  getMonth :: nat
  getDate :: nat

definition minusOneDay :: "Date \<Rightarrow> Date" where
  "minusOneDay date =
     (if 1 < getDate date then date\<lparr>getDate := getDate date - 1\<rparr>
      else if 0 < getMonth date
      then date\<lparr>getMonth := getMonth date - 1,
                 getDate := days_in_month (getFullYear date) (getMonth date)\<rparr>
      else \<lparr>getFullYear = getFullYear date - 1, getMonth = 11, getDate = 31\<rparr>)"

definition string_of_int :: "int \<Rightarrow> string" where
  "string_of_int i = (if i < 0 then CHR ''-'' # string_of_nat (nat (- i)) else string_of_nat (nat i))"

definition padStart2 :: "string \<Rightarrow> string" where
  "padStart2 s = replicate (2 - length s) CHR ''0'' @ s"

definition formatDateKey :: "Date \<Rightarrow> string" where
  "formatDateKey date =
     (let year = string_of_int (getFullYear date);
          month = padStart2 (string_of_nat (getMonth date + 1));
          day = padStart2 (string_of_nat (getDate date))
      in year @ ''-'' @ month @ ''-'' @ day)"

section \<open>Weekday distribution\<close>

text \<open>
  The loop over \<open>dailyActivity.entries()\<close> in \<open>calculateStats\<close>. For a key that does not
  parse, \<open>getDay()\<close> is \<open>NaN\<close> and the assignment touches no bucket.
\<close>

definition addWeekday :: "int \<Rightarrow> int list \<Rightarrow> string \<times> int \<Rightarrow> int list" where
  "addWeekday tzOffset weekdayCounts entry =
     (case parseDate (fst entry) of
        None \<Rightarrow> weekdayCounts
      | Some time \<Rightarrow>
          (let weekday = getDay tzOffset time
           in weekdayCounts[weekday := weekdayCounts ! weekday + snd entry]))"

definition weekdayCountsOf :: "int \<Rightarrow> int js_map \<Rightarrow> int list" where
  "weekdayCountsOf tzOffset dailyActivity =
     foldl (addWeekday tzOffset) [0, 0, 0, 0, 0, 0, 0] dailyActivity"

record WeekdayActivity =
  counts :: "int list"
  mostActiveDay :: nat
  mostActiveDayName :: string
  maxCount :: int

definition WEEKDAY_NAMES_FULL :: "string list" where
  "WEEKDAY_NAMES_FULL =
     [''Sunday'', ''Monday'', ''Tuesday'', ''Wednesday'', ''Thursday'', ''Friday'', ''Saturday'']"

definition buildWeekdayActivity :: "int list \<Rightarrow> WeekdayActivity" where
  "buildWeekdayActivity counts' =
     (let (mostActiveDay', maxCount') =
            foldl (\<lambda>(mostActiveDay', maxCount') i.
                     if counts' ! i > maxCount' then (i, counts' ! i)
                     else (mostActiveDay', maxCount'))
              (0, 0) [0..<7]
      in \<lparr>counts = counts', mostActiveDay = mostActiveDay',
          mostActiveDayName = WEEKDAY_NAMES_FULL ! mostActiveDay', maxCount = maxCount'\<rparr>)"

section \<open>Streaks\<close>

text \<open>\<open>Math.round\<close>: the nearest integer, a half rounded up.\<close>

definition Math_round :: "rat \<Rightarrow> int" where
  "Math_round x = \<lfloor>x + 1 / 2\<rfloor>"

text \<open>
  \<open>diffDays\<close> of two neighbouring keys; \<open>None\<close> is \<open>NaN\<close>, which a key that does not parse
  produces and which is not \<open>=== 1\<close>.
\<close>

definition diffDays :: "string \<Rightarrow> string \<Rightarrow> int option" where
  "diffDays prevKey currKey =
     (case (parseDate prevKey, parseDate currKey) of
        (Some prevTime, Some currTime) \<Rightarrow>
          (let diffTime = currTime - prevTime
           in Some (Math_round (of_int diffTime / of_int msPerDay)))
      | _ \<Rightarrow> None)"

record StreakState =
  maxStreak :: nat
  tempStreak :: nat
  tempStreakStart :: nat
  maxStreakStart :: nat
  maxStreakEnd :: nat

text \<open>The body of the loop \<open>for (let i = 1; i < activeDates.length; i++)\<close>.\<close>

definition streakStep :: "string list \<Rightarrow> StreakState \<Rightarrow> nat \<Rightarrow> StreakState" where
  "streakStep activeDates st i =
     (if diffDays (activeDates ! (i - 1)) (activeDates ! i) = Some 1 then
        (let st' = st\<lparr>tempStreak := tempStreak st + 1\<rparr>
         in if tempStreak st' > maxStreak st'
            then st'\<lparr>maxStreak := tempStreak st', maxStreakStart := tempStreakStart st',
                     maxStreakEnd := i\<rparr>
            else st')
      else st\<lparr>tempStreak := 1, tempStreakStart := i\<rparr>)"

definition streakLoop :: "string list \<Rightarrow> StreakState" where
  "streakLoop activeDates =
     foldl (streakStep activeDates)
       \<lparr>maxStreak = 1, tempStreak = 1, tempStreakStart = 0, maxStreakStart = 0, maxStreakEnd = 0\<rparr>
       [1..<length activeDates]"

text \<open>
  \<open>countStreakBackwards\<close>: its loop is \<open>while (true)\<close> and leaves only at a day that is
  not a key of the map, so it is a partial function; \<open>None\<close> means that it never returns.
\<close>

partial_function (option) streakBackwardsLoop :: "int js_map \<Rightarrow> Date \<Rightarrow> nat \<Rightarrow> nat option" where
  "streakBackwardsLoop dailyActivity checkDate streak =
     (if map_of dailyActivity (formatDateKey (minusOneDay checkDate)) \<noteq> None
      then streakBackwardsLoop dailyActivity (minusOneDay checkDate) (streak + 1)
      else Some streak)"

declare streakBackwardsLoop.simps [code]

definition countStreakBackwards :: "int js_map \<Rightarrow> Date \<Rightarrow> nat option" where
  "countStreakBackwards dailyActivity startDate = streakBackwardsLoop dailyActivity startDate 1"

record StreakResult =
  maxStreak :: nat
  currentStreak :: nat
  maxStreakDays :: "string list"

text \<open>
  \<open>calculateStreaks\<close>, with the clock's reading \<open>new Date()\<close> as the parameter \<open>now\<close>. The
  default \<open>sort()\<close> orders strings by their code units, which is the lexicographic order
  of the characters. The set \<open>maxStreakDays\<close> is listed in insertion order.
\<close>

definition calculateStreaks :: "int js_map \<Rightarrow> int \<Rightarrow> Date \<Rightarrow> StreakResult option" where
  "calculateStreaks dailyActivity year now =
     (let activeDates =
            sort (filter (\<lambda>date. prefix (string_of_int year) date) (map fst dailyActivity))
      in if length activeDates = 0
         then Some \<lparr>maxStreak = 0, currentStreak = 0, maxStreakDays = []\<rparr>
         else
           (let st = streakLoop activeDates;
                maxStreakDays' =
                  map (\<lambda>i. activeDates ! i) [maxStreakStart st..<maxStreakEnd st + 1];
                today = formatDateKey now;
                yesterday = formatDateKey (minusOneDay now);
                currentStreak' =
                  (if map_of dailyActivity today \<noteq> None
                   then countStreakBackwards dailyActivity now
                   else if map_of dailyActivity yesterday \<noteq> None
                   then countStreakBackwards dailyActivity (minusOneDay now)
                   else Some 0)
            in map_option
                 (\<lambda>current. \<lparr>maxStreak = StreakState.maxStreak st, currentStreak = current,
                              maxStreakDays = maxStreakDays'\<rparr>)
                 currentStreak'))"

text \<open>The number of days from 1970-01-01 to the calendar day of a \<open>Date\<close>.\<close>

definition dayNumber :: "Date \<Rightarrow> int" where
  "dayNumber date = days_from_civil (getFullYear date) (getMonth date + 1) (getDate date)"

text \<open>A \<open>Date\<close> whose local fields are those of a calendar date.\<close>

definition valid_Date :: "Date \<Rightarrow> bool" where
  "valid_Date date =
     (getMonth date < 12 \<and> 1 \<le> getDate date
      \<and> getDate date \<le> days_in_month (getFullYear date) (getMonth date + 1))"

section \<open>Theorems\<close>




text \<open>
  C9. Detection is a first match over the fixed, ordered signal table: the first signal
  present in the environment gives the family and its protocol flags, and an environment
  with no signal gives the default family with both protocol flags false.
\<close>

theorem detectTerminal_first_match:
  "detectTerminal env = spec_first_match spec_signal_table env
   \<and> ((\<forall>entry \<in> set spec_signal_table. \<not> fst entry env) \<longrightarrow>
        detectTerminal env =
          \<lparr>type = Standard, supportsKittyProtocol = False, supportsITerm2Protocol = False\<rparr>)"
  by (simp add: detectTerminal_def spec_signal_table_def spec_default_terminal_def)

theorem detectTerminal_first_match_witness:
  "list_all (\<lambda>entry. \<not> fst entry [''TERM'' \<mapsto> ''xterm-256color'']) spec_signal_table
   \<and> detectTerminal [''TERM'' \<mapsto> ''xterm-256color''] =
        \<lparr>type = Standard, supportsKittyProtocol = False, supportsITerm2Protocol = False\<rparr>
   \<and> detectTerminal [''TERM'' \<mapsto> ''xterm-256color'', ''KITTY_WINDOW_ID'' \<mapsto> ''1'',
                      ''TERM_PROGRAM'' \<mapsto> ''vscode''] =
        \<lparr>type = Kitty, supportsKittyProtocol = True, supportsITerm2Protocol = False\<rparr>"
  using detectTerminal_first_match [of "[''TERM'' \<mapsto> ''xterm-256color'']"]
    detectTerminal_first_match [of "[''TERM'' \<mapsto> ''xterm-256color'',
      ''KITTY_WINDOW_ID'' \<mapsto> ''1'', ''TERM_PROGRAM'' \<mapsto> ''vscode'']"]
  by (simp add: spec_signal_table_def spec_default_terminal_def truthy_def)

text \<open>
  C10. When the provider lookup yields nothing usable for a model id (no provider, or the
  string "unknown"), the resolved provider id is "openai" whatever the model id's prefix;
  and no resolved provider id is ever the string "unknown".
\<close>

theorem resolveProviderId_fallback:
  "(getModelProvider cachedData modelId = [] \<or> getModelProvider cachedData modelId = ''unknown''
      \<longrightarrow> resolveProviderId cachedData modelId = ''openai'')
   \<and> resolveProviderId cachedData modelId \<noteq> ''unknown''"
  by (simp add: resolveProviderId_def Let_def)

theorem resolveProviderId_fallback_witness:
  "getModelProvider \<lparr>models = Map.empty, providers = Map.empty\<rparr> ''claude-x'' = ''unknown''
   \<and> resolveProviderId \<lparr>models = Map.empty, providers = Map.empty\<rparr> ''claude-x'' = ''openai''"
  using resolveProviderId_fallback [of "\<lparr>models = Map.empty, providers = Map.empty\<rparr>" "''claude-x''"]
  by (simp add: getModelProvider_def)

subsection \<open>Terminal graphics renderer\<close>

lemma chunks_zero_iff: "0 < c \<Longrightarrow> ((n::nat) - (i + c) + (c - 1)) div c = 0 \<longleftrightarrow> n \<le> i + c"
  by (auto simp: div_eq_0_iff)

lemma chunks_step:
  assumes "0 < c" "i < (n::nat)"
  shows "Suc ((n - (i + c) + (c - 1)) div c) = (n - i + (c - 1)) div c"
proof (cases "n \<le> i + c")
  case True
  have "n - i + (c - 1) = (n - i - 1) + c" using assms by simp
  moreover have "(n - i - 1) div c = 0" using True assms by (simp add: div_eq_0_iff)
  ultimately have A: "(n - i + (c - 1)) div c = 1"
    using assms by (simp del: add_diff_assoc add_diff_assoc2)
  have B: "(n - (i + c) + (c - 1)) div c = 0"
    using True assms by (simp add: div_eq_0_iff)
  show ?thesis by (simp only: A B)
next
  case False
  have more: "(x + c) div c = Suc (x div c)" for x using assms by simp
  from False have "n - i + (c - 1) = (n - (i + c) + (c - 1)) + c" by simp
  then have "(n - i + (c - 1)) div c = ((n - (i + c) + (c - 1)) + c) div c" by (rule arg_cong)
  also have "\<dots> = Suc ((n - (i + c) + (c - 1)) div c)"
    by (simp only: more [of "n - (i + c) + (c - 1)"])
  finally show ?thesis by (rule sym)
qed

lemma ceil_chunks:
  assumes "0 < c"
  shows "int ((n + (c - 1)) div c) = \<lceil>real n / real c\<rceil>"
proof -
  define q where "q = (n + (c - 1)) div c"
  define r where "r = (n + (c - 1)) mod c"
  have eq: "n + (c - 1) = q * c + r" and r: "r < c"
    using assms by (simp_all add: q_def r_def)
  have up: "real n \<le> real (q * c)" using eq r by linarith
  have lo: "real (q * c) < real n + real c" using eq r assms by linarith
  have "\<lceil>real n / real c\<rceil> = int q"
  proof (rule ceiling_unique)
    show "real_of_int (int q) - 1 < real n / real c"
      using lo assms by (simp add: field_simps)
    show "real n / real c \<le> real_of_int (int q)"
      using up assms by (simp add: field_simps)
  qed
  then show ?thesis by (simp add: q_def)
qed

lemma chunkSize_pos: "0 < chunkSize"
  by (simp add: chunkSize_def)

lemma node_write: "stdout_write node_host t out = (None, out @ [t])"
  by (simp add: node_host_def)

lemma node_toBase64: "toBase64 node_host b = Inr (base64_encode b)"
  by (simp add: node_host_def)

lemma kitty_loop_node:
  "\<exists>frames. kitty_loop node_host b i out = (None, out @ map frame_text frames)
     \<and> length frames = (length b - i + (chunkSize - 1)) div chunkSize
     \<and> (\<forall>f \<in> set frames. length (chunk f) \<le> chunkSize)
     \<and> (\<forall>f \<in> set (butlast frames). moreData f)
     \<and> (frames \<noteq> [] \<longrightarrow> \<not> moreData (last frames))
     \<and> (frames \<noteq> [] \<longrightarrow> (first (hd frames) \<longleftrightarrow> i = 0))
     \<and> (\<forall>f \<in> set (tl frames). \<not> first f)
     \<and> concat (map chunk frames) = drop i b"
proof (induction "length b - i" arbitrary: i out rule: less_induct)
  case less
  show ?case
  proof (cases "i < length b")
    case False
    then have "kitty_loop node_host b i out = (None, out @ map frame_text [])"
      by (subst kitty_loop.simps) simp
    moreover have "(length b - i + (chunkSize - 1)) div chunkSize = 0"
      using False chunkSize_pos by (simp add: div_eq_0_iff)
    ultimately show ?thesis
      using False by (intro exI [of _ "[]"]) simp
  next
    case True
    define f where "f = KittyFrame (i = 0) (i + chunkSize < length b) (take chunkSize (drop i b))"
    have step: "kitty_loop node_host b i out
        = kitty_loop node_host b (i + chunkSize) (out @ [frame_text f])"
      using True by (subst kitty_loop.simps) (simp add: Let_def f_def not_le node_write)
    have "length b - (i + chunkSize) < length b - i"
      using True chunkSize_pos by simp
    from less [OF this, of "out @ [frame_text f]"]
    obtain frames where all:
      "kitty_loop node_host b (i + chunkSize) (out @ [frame_text f])
         = (None, (out @ [frame_text f]) @ map frame_text frames)
       \<and> length frames = (length b - (i + chunkSize) + (chunkSize - 1)) div chunkSize
       \<and> (\<forall>f \<in> set frames. length (chunk f) \<le> chunkSize)
       \<and> (\<forall>f \<in> set (butlast frames). moreData f)
       \<and> (frames \<noteq> [] \<longrightarrow> \<not> moreData (last frames))
       \<and> (frames \<noteq> [] \<longrightarrow> (first (hd frames) \<longleftrightarrow> i + chunkSize = 0))
       \<and> (\<forall>f \<in> set (tl frames). \<not> first f)
       \<and> concat (map chunk frames) = drop (i + chunkSize) b" ..
    then have fr:
      "kitty_loop node_host b (i + chunkSize) (out @ [frame_text f])
         = (None, (out @ [frame_text f]) @ map frame_text frames)"
      "length frames = (length b - (i + chunkSize) + (chunkSize - 1)) div chunkSize"
      "\<forall>f \<in> set frames. length (chunk f) \<le> chunkSize"
      "\<forall>f \<in> set (butlast frames). moreData f"
      "frames \<noteq> [] \<longrightarrow> \<not> moreData (last frames)"
      "frames \<noteq> [] \<longrightarrow> (first (hd frames) \<longleftrightarrow> i + chunkSize = 0)"
      "\<forall>f \<in> set (tl frames). \<not> first f"
      "concat (map chunk frames) = drop (i + chunkSize) b"
      by simp_all
    have empty_iff: "frames = [] \<longleftrightarrow> length b \<le> i + chunkSize"
      using fr(2) chunks_zero_iff [OF chunkSize_pos, of "length b" i] by (metis length_0_conv)
    have 1: "kitty_loop node_host b i out = (None, out @ map frame_text (f # frames))"
      using step fr(1) by simp
    have 2: "length (f # frames) = (length b - i + (chunkSize - 1)) div chunkSize"
      using fr(2) chunks_step [OF chunkSize_pos True] by simp
    have 3: "\<forall>g \<in> set (f # frames). length (chunk g) \<le> chunkSize"
      using fr(3) by (simp add: f_def)
    have 4: "\<forall>g \<in> set (butlast (f # frames)). moreData g"
      using fr(4) empty_iff by (simp add: f_def)
    have 5: "f # frames \<noteq> [] \<longrightarrow> \<not> moreData (last (f # frames))"
      using fr(5) empty_iff by (simp add: f_def)
    have 6: "f # frames \<noteq> [] \<longrightarrow> (first (hd (f # frames)) \<longleftrightarrow> i = 0)"
      by (simp add: f_def)
    have 7: "\<forall>g \<in> set (tl (f # frames)). \<not> first g"
    proof (cases frames)
      case Nil
      then show ?thesis by simp
    next
      case (Cons g gs)
      then have "\<not> first g" using fr(6) chunkSize_pos by simp
      then show ?thesis using fr(7) Cons by simp
    qed
    have 8: "concat (map chunk (f # frames)) = drop i b"
      using fr(8) by (simp add: f_def add.commute flip: drop_drop)
    show ?thesis
      by (rule exI [of _ "f # frames"]) (intro conjI 1 2 3 4 5 6 7 8)
  qed
qed

text \<open>
  C8. On the reference host, protocol A writes one frame per chunk and then the newline:
  the number of frames is \<open>ceil(base64Length / 4096)\<close>, every chunk has at most 4096
  characters, every frame but the last carries \<open>m=1\<close>, the last carries \<open>m=0\<close>, and
  the chunks together are the base64 text.
\<close>

theorem kitty_frame_count:
  "\<exists>frames. displayKittyProtocol node_host pngBuffer [] = (None, map frame_text frames @ [[newline]])
     \<and> int (length frames) = \<lceil>real (length (base64_encode pngBuffer)) / 4096\<rceil>
     \<and> (\<forall>f \<in> set frames. length (chunk f) \<le> 4096)
     \<and> (\<forall>f \<in> set (butlast frames). moreData f)
     \<and> (frames \<noteq> [] \<longrightarrow> \<not> moreData (last frames))
     \<and> concat (map chunk frames) = base64_encode pngBuffer"
proof -
  obtain frames where fr:
    "kitty_loop node_host (base64_encode pngBuffer) 0 [] = (None, [] @ map frame_text frames)"
    "length frames = (length (base64_encode pngBuffer) - 0 + (chunkSize - 1)) div chunkSize"
    "\<forall>f \<in> set frames. length (chunk f) \<le> chunkSize"
    "\<forall>f \<in> set (butlast frames). moreData f"
    "frames \<noteq> [] \<longrightarrow> \<not> moreData (last frames)"
    "concat (map chunk frames) = drop 0 (base64_encode pngBuffer)"
    using kitty_loop_node [of "base64_encode pngBuffer" 0 "[]"] by blast
  have a: "displayKittyProtocol node_host pngBuffer [] = (None, map frame_text frames @ [[newline]])"
    using fr(1) by (simp add: displayKittyProtocol_def node_write node_toBase64)
  have "int (length frames) = \<lceil>real (length (base64_encode pngBuffer)) / real chunkSize\<rceil>"
    using fr(2) ceil_chunks [OF chunkSize_pos, of "length (base64_encode pngBuffer)"] by simp
  then have b: "int (length frames) = \<lceil>real (length (base64_encode pngBuffer)) / 4096\<rceil>"
    by (simp add: chunkSize_def)
  have c: "\<forall>f \<in> set frames. length (chunk f) \<le> 4096"
    using fr(3) by (simp add: chunkSize_def)
  have d: "concat (map chunk frames) = base64_encode pngBuffer"
    using fr(6) by simp
  from a b c d fr(4) fr(5) show ?thesis by blast
qed

theorem kitty_frame_count_witness:
  "\<exists>frames. displayKittyProtocol node_host (map of_char ''Man'') [] = (None, map frame_text frames @ [[newline]])
     \<and> length frames = 1 \<and> concat (map chunk frames) = ''TWFu''"
proof -
  have enc: "base64_encode (map of_char ''Man'') = ''TWFu''" by code_simp
  obtain frames where fr:
    "displayKittyProtocol node_host (map of_char ''Man'') [] = (None, map frame_text frames @ [[newline]])"
    "int (length frames) = \<lceil>real (length (base64_encode (map of_char ''Man''))) / 4096\<rceil>"
    "concat (map chunk frames) = base64_encode (map of_char ''Man'')"
    using kitty_frame_count [of "map of_char ''Man''"] by blast
  have "\<lceil>(4::real) / 4096\<rceil> = 1" by (simp add: ceiling_eq_iff)
  then have "length frames = 1" using fr(2) unfolding enc by simp
  with fr(1) fr(3) enc show ?thesis by auto
qed


lemma base64_encode_Nil_iff: "base64_encode b = [] \<longleftrightarrow> b = []"
  by (cases b rule: base64_encode.cases) simp_all

text \<open>
  C2, as stated, fails: for the zero-length payload the base64 text is empty, the loop
  body never runs, and the only write is the newline. No frame is emitted.
\<close>

theorem kitty_empty_payload_counterexample:
  "displayKittyProtocol node_host [] [] = (None, [[newline]])
   \<and> snd (displayKittyProtocol node_host [] [])
        \<noteq> [frame_text (KittyFrame True False []), [newline]]"
  by (simp add: displayKittyProtocol_def node_host_def kitty_loop.simps)

text \<open>
  C2, amended. A zero-length payload emits no frame, only the terminating newline. A
  non-empty payload whose base64 text fits one chunk emits exactly one frame: the
  first-chunk frame, with \<open>m=0\<close>, carrying the whole base64 text.
\<close>

theorem kitty_single_chunk:
  assumes "length (base64_encode pngBuffer) \<le> chunkSize"
  shows "displayKittyProtocol node_host pngBuffer [] =
           (None, if pngBuffer = [] then [[newline]]
                  else [frame_text (KittyFrame True False (base64_encode pngBuffer)), [newline]])"
proof (cases "pngBuffer = []")
  case True
  then show ?thesis
    by (simp add: displayKittyProtocol_def node_toBase64 node_write kitty_loop.simps)
next
  case False
  then have ne: "0 < length (base64_encode pngBuffer)"
    by (simp add: base64_encode_Nil_iff)
  have stop: "kitty_loop node_host (base64_encode pngBuffer) chunkSize out = (None, out)" for out
    using assms by (subst kitty_loop.simps) simp
  have "kitty_loop node_host (base64_encode pngBuffer) 0 []
          = (None, [frame_text (KittyFrame True False (base64_encode pngBuffer))])"
    using ne assms by (subst kitty_loop.simps) (simp add: Let_def node_write stop)
  with False show ?thesis
    by (simp add: displayKittyProtocol_def node_toBase64 node_write)
qed

theorem kitty_single_chunk_witness:
  "length (base64_encode (map of_char ''Man'')) \<le> chunkSize
   \<and> displayKittyProtocol node_host (map of_char ''Man'') []
       = (None, [frame_text (KittyFrame True False ''TWFu''), [newline]])
   \<and> length (base64_encode []) \<le> chunkSize
   \<and> displayKittyProtocol node_host [] [] = (None, [[newline]])"
proof -
  have enc: "base64_encode (map of_char ''Man'') = ''TWFu''" by code_simp
  have small: "length (base64_encode (map of_char ''Man'')) \<le> chunkSize"
    unfolding enc by (simp add: chunkSize_def)
  have small0: "length (base64_encode []) \<le> chunkSize" by simp
  show ?thesis
    using kitty_single_chunk [OF small] kitty_single_chunk [OF small0] small enc by simp
qed



subsection \<open>Usage event aggregation\<close>

lemma modelUsageTotals_addEvent:
  "modelUsageTotals (addEvent s event) =
     AList.update (model event)
       \<lparr>inputTokens =
          (case map_of (modelUsageTotals s) (model event) of None \<Rightarrow> 0
           | Some u \<Rightarrow> ModelUsageTotals.inputTokens u) + CodexUsageEvent.inputTokens event,
        cachedInputTokens =
          (case map_of (modelUsageTotals s) (model event) of None \<Rightarrow> 0
           | Some u \<Rightarrow> ModelUsageTotals.cachedInputTokens u)
            + CodexUsageEvent.cachedInputTokens event,
        outputTokens =
          (case map_of (modelUsageTotals s) (model event) of None \<Rightarrow> 0
           | Some u \<Rightarrow> ModelUsageTotals.outputTokens u) + CodexUsageEvent.outputTokens event,
        reasoningTokens =
          (case map_of (modelUsageTotals s) (model event) of None \<Rightarrow> 0
           | Some u \<Rightarrow> reasoningTokens u) + reasoningOutputTokens event,
        totalTokens =
          (case map_of (modelUsageTotals s) (model event) of None \<Rightarrow> 0
           | Some u \<Rightarrow> ModelUsageTotals.totalTokens u) + getEventTotal event\<rparr>
       (modelUsageTotals s)"
  by (simp add: addEvent_def getOrCreateModelUsage_def Let_def split: option.splits)

lemma grand_totals_addEvent:
  "totalInputTokens (addEvent s event) = totalInputTokens s + CodexUsageEvent.inputTokens event"
  "totalCachedInputTokens (addEvent s event)
     = totalCachedInputTokens s + CodexUsageEvent.cachedInputTokens event"
  "totalOutputTokens (addEvent s event) = totalOutputTokens s + CodexUsageEvent.outputTokens event"
  "totalReasoningTokens (addEvent s event) = totalReasoningTokens s + reasoningOutputTokens event"
  "UsageTotals.totalTokens (addEvent s event) = UsageTotals.totalTokens s + getEventTotal event"
  by (simp_all add: addEvent_def Let_def split: prod.splits)

lemma aggregateUsage_snoc:
  "aggregateUsage (events @ [event]) = addEvent (aggregateUsage events) event"
  by (simp add: aggregateUsage_def)

lemma aggregateUsage_Nil: "aggregateUsage [] = noUsage"
  by (simp add: aggregateUsage_def)

lemma grand_totals_aggregateUsage:
  "totalInputTokens (aggregateUsage events) = sum_list (map CodexUsageEvent.inputTokens events)"
  "totalCachedInputTokens (aggregateUsage events)
     = sum_list (map CodexUsageEvent.cachedInputTokens events)"
  "totalOutputTokens (aggregateUsage events) = sum_list (map CodexUsageEvent.outputTokens events)"
  "totalReasoningTokens (aggregateUsage events) = sum_list (map reasoningOutputTokens events)"
  "UsageTotals.totalTokens (aggregateUsage events) = sum_list (map getEventTotal events)"
  by (induction events rule: rev_induct)
     (simp_all add: aggregateUsage_Nil noUsage_def aggregateUsage_snoc grand_totals_addEvent)

lemma lookup_aggregateUsage:
  "map_of (modelUsageTotals (aggregateUsage events)) modelId =
     (if modelId \<in> model ` set events then Some (spec_model_totals modelId events) else None)"
proof (induction events rule: rev_induct)
  case Nil
  then show ?case by (simp add: aggregateUsage_Nil noUsage_def)
next
  case (snoc event events)
  show ?case
  proof (cases "model event = modelId")
    case False
    with snoc show ?thesis
      by (auto simp: aggregateUsage_snoc modelUsageTotals_addEvent update_conv' spec_model_totals_def)
  next
    case True
    have none: "modelId \<notin> model ` set events
        \<Longrightarrow> filter (\<lambda>event. model event = modelId) events = []"
      by (auto simp: filter_empty_conv)
    from True snoc none show ?thesis
      by (simp add: aggregateUsage_snoc modelUsageTotals_addEvent update_conv'
            spec_model_totals_def Let_def)
  qed
qed

lemma sum_list_filter_mset:
  fixes f :: "'a \<Rightarrow> int"
  assumes "mset xs = mset ys"
  shows "sum_list (map f (filter P xs)) = sum_list (map f (filter P ys))"
proof -
  have "mset (map f (filter P xs)) = mset (map f (filter P ys))"
    by (simp add: assms)
  then show ?thesis by (metis sum_mset_sum_list)
qed

lemma sum_list_mset:
  fixes f :: "'a \<Rightarrow> int"
  assumes "mset xs = mset ys"
  shows "sum_list (map f xs) = sum_list (map f ys)"
  using sum_list_filter_mset [OF assms, of f "\<lambda>x. True"] by simp



subsection \<open>Ranking\<close>

lemma sum_list_update:
  fixes g :: "'v \<Rightarrow> int"
  shows "sum_list (map (\<lambda>p. g (snd p)) (AList.update k v al))
           = sum_list (map (\<lambda>p. g (snd p)) al)
               - (case map_of al k of None \<Rightarrow> 0 | Some u \<Rightarrow> g u) + g v"
  by (induction al) auto

lemma set_update_cases:
  "p \<in> set (AList.update k v al) \<Longrightarrow> p = (k, v) \<or> p \<in> set al"
  by (induction al) (auto split: if_splits)

lemma member_le_sum_list_int:
  fixes xs :: "int list"
  assumes "x \<in> set xs" "\<forall>y \<in> set xs. 0 \<le> y"
  shows "x \<le> sum_list xs"
  using assms
proof (induction xs)
  case Nil
  then show ?case by simp
next
  case (Cons a xs)
  have "0 \<le> sum_list xs" using Cons.prems(2) by (simp add: sum_list_nonneg)
  then show ?case using Cons by auto
qed

lemma sum_totals_aggregateUsage:
  "sum_list (map (\<lambda>p. ModelUsageTotals.totalTokens (snd p)) (modelUsageTotals (aggregateUsage events)))
     = UsageTotals.totalTokens (aggregateUsage events)"
proof (induction events rule: rev_induct)
  case Nil
  then show ?case by (simp add: aggregateUsage_Nil noUsage_def)
next
  case (snoc event events)
  then show ?case
    by (simp add: aggregateUsage_snoc modelUsageTotals_addEvent grand_totals_addEvent
          sum_list_update)
qed

lemma usage_sound_aggregateUsage:
  assumes "\<forall>event \<in> set events.
             0 \<le> CodexUsageEvent.inputTokens event \<and> 0 \<le> CodexUsageEvent.outputTokens event
             \<and> (0 < reasoningOutputTokens event \<longrightarrow> 0 < getEventTotal event)"
  shows "\<forall>p \<in> set (modelUsageTotals (aggregateUsage events)).
           0 \<le> ModelUsageTotals.totalTokens (snd p)
           \<and> ModelUsageTotals.inputTokens (snd p) + ModelUsageTotals.outputTokens (snd p)
                \<le> ModelUsageTotals.totalTokens (snd p)
           \<and> (ModelUsageTotals.totalTokens (snd p) \<le> 0 \<longrightarrow> reasoningTokens (snd p) \<le> 0)"
  using assms
proof (induction events rule: rev_induct)
  case Nil
  then show ?case by (simp add: aggregateUsage_Nil noUsage_def)
next
  case (snoc event events)
  let ?al = "modelUsageTotals (aggregateUsage events)"
  have IH: "\<forall>p \<in> set ?al.
           0 \<le> ModelUsageTotals.totalTokens (snd p)
           \<and> ModelUsageTotals.inputTokens (snd p) + ModelUsageTotals.outputTokens (snd p)
                \<le> ModelUsageTotals.totalTokens (snd p)
           \<and> (ModelUsageTotals.totalTokens (snd p) \<le> 0 \<longrightarrow> reasoningTokens (snd p) \<le> 0)"
    using snoc by simp
  have ev: "0 \<le> CodexUsageEvent.inputTokens event" "0 \<le> CodexUsageEvent.outputTokens event"
    "0 < reasoningOutputTokens event \<longrightarrow> 0 < getEventTotal event"
    using snoc.prems by simp_all
  have et: "CodexUsageEvent.inputTokens event + CodexUsageEvent.outputTokens event
              \<le> getEventTotal event"
    by (simp add: getEventTotal_def Let_def)
  show ?case
  proof
    fix p
    assume "p \<in> set (modelUsageTotals (aggregateUsage (events @ [event])))"
    have "p \<notin> set ?al \<or> p \<in> set ?al" by simp
    then consider (new) "p \<notin> set ?al" | (old) "p \<in> set ?al" by blast
    then show "0 \<le> ModelUsageTotals.totalTokens (snd p)
           \<and> ModelUsageTotals.inputTokens (snd p) + ModelUsageTotals.outputTokens (snd p)
                \<le> ModelUsageTotals.totalTokens (snd p)
           \<and> (ModelUsageTotals.totalTokens (snd p) \<le> 0 \<longrightarrow> reasoningTokens (snd p) \<le> 0)"
    proof cases
      case old
      with IH show ?thesis by blast
    next
      case new
      from \<open>p \<in> set (modelUsageTotals (aggregateUsage (events @ [event])))\<close> new
      have p: "p = (model event,
        \<lparr>inputTokens =
          (case map_of ?al (model event) of None \<Rightarrow> 0
           | Some u \<Rightarrow> ModelUsageTotals.inputTokens u) + CodexUsageEvent.inputTokens event,
        cachedInputTokens =
          (case map_of ?al (model event) of None \<Rightarrow> 0
           | Some u \<Rightarrow> ModelUsageTotals.cachedInputTokens u)
            + CodexUsageEvent.cachedInputTokens event,
        outputTokens =
          (case map_of ?al (model event) of None \<Rightarrow> 0
           | Some u \<Rightarrow> ModelUsageTotals.outputTokens u) + CodexUsageEvent.outputTokens event,
        reasoningTokens =
          (case map_of ?al (model event) of None \<Rightarrow> 0
           | Some u \<Rightarrow> reasoningTokens u) + reasoningOutputTokens event,
        totalTokens =
          (case map_of ?al (model event) of None \<Rightarrow> 0
           | Some u \<Rightarrow> ModelUsageTotals.totalTokens u) + getEventTotal event\<rparr>)"
        by (auto simp: aggregateUsage_snoc modelUsageTotals_addEvent dest!: set_update_cases)
      show ?thesis
      proof (cases "map_of ?al (model event)")
        case None
        with p ev et show ?thesis by auto
      next
        case (Some u)
        then have "(model event, u) \<in> set ?al" by (rule map_of_SomeD)
        with IH have "0 \<le> ModelUsageTotals.totalTokens u
           \<and> ModelUsageTotals.inputTokens u + ModelUsageTotals.outputTokens u
                \<le> ModelUsageTotals.totalTokens u
           \<and> (ModelUsageTotals.totalTokens u \<le> 0 \<longrightarrow> reasoningTokens u \<le> 0)"
          by fastforce
        with p Some ev et show ?thesis by auto
      qed
    qed
  qed
qed


lemma addModel_step:
  "addModel cachedData getModelDisplayName (providerCounts, modelStats) (modelId, usage) =
     (if tokenTotal usage \<le> 0 then (providerCounts, modelStats)
      else (AList.update (resolveProviderId cachedData modelId)
              ((case map_of providerCounts (resolveProviderId cachedData modelId) of
                  None \<Rightarrow> 0 | Some c \<Rightarrow> c) + tokenTotal usage)
              providerCounts,
            modelStats @
              [\<lparr>ModelStats.id = modelId, ModelStats.name = getModelDisplayName modelId,
                providerId = resolveProviderId cachedData modelId,
                ModelStats.count = tokenTotal usage, ModelStats.percentage = 0\<rparr>]))"
  by (simp add: addModel_def Let_def)

lemma addModel_providers_sum:
  "sum_list (map snd (fst (addModel cachedData names acc entry)))
     = sum_list (map snd (fst acc))
         + (if 0 < tokenTotal (snd entry) then tokenTotal (snd entry) else 0)"
proof -
  obtain providerCounts modelStats modelId usage
    where acc: "acc = (providerCounts, modelStats)" and entry: "entry = (modelId, usage)"
    by (cases acc, cases entry) blast
  show ?thesis
    unfolding acc entry addModel_step
    using sum_list_update [of "\<lambda>c. c" "resolveProviderId cachedData modelId" _ providerCounts]
    by simp
qed

lemma addModel_models_sum:
  "sum_list (map ModelStats.count (snd (addModel cachedData names acc entry)))
     = sum_list (map ModelStats.count (snd acc))
         + (if 0 < tokenTotal (snd entry) then tokenTotal (snd entry) else 0)"
proof -
  obtain providerCounts modelStats modelId usage
    where acc: "acc = (providerCounts, modelStats)" and entry: "entry = (modelId, usage)"
    by (cases acc, cases entry) blast
  show ?thesis
    unfolding acc entry addModel_step by simp
qed

lemma addModel_positive:
  assumes "\<forall>q \<in> set (fst acc). 0 < snd q" "\<forall>x \<in> set (snd acc). 0 < ModelStats.count x"
  shows "(\<forall>q \<in> set (fst (addModel cachedData names acc entry)). 0 < snd q)
       \<and> (\<forall>x \<in> set (snd (addModel cachedData names acc entry)). 0 < ModelStats.count x)"
proof -
  obtain providerCounts modelStats modelId usage
    where acc: "acc = (providerCounts, modelStats)" and entry: "entry = (modelId, usage)"
    by (cases acc, cases entry) blast
  show ?thesis
  proof (cases "tokenTotal usage \<le> 0")
    case True
    then show ?thesis using assms unfolding acc entry addModel_step by simp
  next
    case False
    let ?pid = "resolveProviderId cachedData modelId"
    let ?old = "case map_of providerCounts ?pid of None \<Rightarrow> 0 | Some c \<Rightarrow> c"
    have old: "0 \<le> ?old"
    proof (cases "map_of providerCounts ?pid")
      case None
      then show ?thesis by simp
    next
      case (Some c)
      then have "(?pid, c) \<in> set providerCounts" by (rule map_of_SomeD)
      with assms(1) have "0 < c" unfolding acc by fastforce
      with Some show ?thesis by simp
    qed
    have "0 < snd q" if "q \<in> set (AList.update ?pid (?old + tokenTotal usage) providerCounts)"
      for q
    proof -
      from that have "q = (?pid, ?old + tokenTotal usage) \<or> q \<in> set providerCounts"
        by (rule set_update_cases)
      then show ?thesis using old False assms(1) unfolding acc by auto
    qed
    then show ?thesis
      using False assms(2) unfolding acc entry addModel_step by simp
  qed
qed

lemma collect_sums:
  "sum_list (map snd (fst (foldl (addModel cachedData names) acc al)))
     = sum_list (map snd (fst acc))
         + sum_list (map (\<lambda>p. tokenTotal (snd p)) (filter (\<lambda>p. 0 < tokenTotal (snd p)) al))"
  "sum_list (map ModelStats.count (snd (foldl (addModel cachedData names) acc al)))
     = sum_list (map ModelStats.count (snd acc))
         + sum_list (map (\<lambda>p. tokenTotal (snd p)) (filter (\<lambda>p. 0 < tokenTotal (snd p)) al))"
  by (induction al arbitrary: acc) (simp_all add: addModel_providers_sum addModel_models_sum)

lemma collect_positive:
  assumes "\<forall>q \<in> set (fst acc). 0 < snd q" "\<forall>x \<in> set (snd acc). 0 < ModelStats.count x"
  shows "(\<forall>q \<in> set (fst (foldl (addModel cachedData names) acc al)). 0 < snd q)
       \<and> (\<forall>x \<in> set (snd (foldl (addModel cachedData names) acc al)). 0 < ModelStats.count x)"
  using assms
proof (induction al arbitrary: acc)
  case Nil
  then show ?case by simp
next
  case (Cons entry al)
  have "(\<forall>q \<in> set (fst (addModel cachedData names acc entry)). 0 < snd q)
       \<and> (\<forall>x \<in> set (snd (addModel cachedData names acc entry)). 0 < ModelStats.count x)"
    using Cons.prems by (rule addModel_positive)
  then show ?case using Cons.IH [of "addModel cachedData names acc entry"] by simp
qed

lemma ranked_le_totals:
  assumes "\<forall>p \<in> set al.
           0 \<le> ModelUsageTotals.totalTokens (snd p)
           \<and> ModelUsageTotals.inputTokens (snd p) + ModelUsageTotals.outputTokens (snd p)
                \<le> ModelUsageTotals.totalTokens (snd p)
           \<and> (ModelUsageTotals.totalTokens (snd p) \<le> 0 \<longrightarrow> reasoningTokens (snd p) \<le> 0)"
  shows "sum_list (map (\<lambda>p. tokenTotal (snd p)) (filter (\<lambda>p. 0 < tokenTotal (snd p)) al))
           \<le> sum_list (map (\<lambda>p. ModelUsageTotals.totalTokens (snd p)) al)"
  using assms
proof (induction al)
  case Nil
  then show ?case by simp
next
  case (Cons p al)
  have "tokenTotal (snd p) \<le> 0 \<or> tokenTotal (snd p) = ModelUsageTotals.totalTokens (snd p)"
    using Cons.prems by (auto simp: tokenTotal_def)
  moreover have "0 \<le> ModelUsageTotals.totalTokens (snd p)" using Cons.prems by simp
  ultimately show ?case using Cons by auto
qed

lemma percentageOf_bounds:
  assumes "0 < c" "c \<le> d"
  shows "0 \<le> percentageOf c d \<and> percentageOf c d \<le> 100"
proof -
  have "(of_int c :: rat) \<le> of_int d" "(0 :: rat) < of_int d" "(0 :: rat) < of_int c"
    using assms by simp_all
  then show ?thesis
    using assms by (simp add: percentageOf_def field_simps)
qed





subsection \<open>Weekday distribution\<close>

lemma parse_sunday: "parseDate ''2024-01-07'' = Some 1704585600000"
  by (simp add: parseDate_def is_digit_def number_of_digits_def digit_value_def
      days_in_month_def days_from_civil_def days_before_month_def leap_years_before_def
      is_leap_year_def msPerDay_def Let_def)

text \<open>
  C3. The claim asks for bucket 0 for a Sunday key in every local zone. The loop reads the
  key with \<open>new Date(key)\<close>, which is midnight UTC, and \<open>getDay()\<close> then gives the local
  weekday of that instant. For 2024-01-07, a Sunday, a zone 8 hours behind UTC gets bucket
  6 and \<open>mostActiveDay = 6\<close>; at UTC the bucket is 0.
\<close>

theorem weekday_bucketing_west_of_utc:
  "getDay 0 1704585600000 = 0
   \<and> parseDate ''2024-01-07'' = Some 1704585600000
   \<and> weekdayCountsOf (- 480) [(''2024-01-07'', 1)] = [0, 0, 0, 0, 0, 0, 1]
   \<and> mostActiveDay (buildWeekdayActivity (weekdayCountsOf (- 480) [(''2024-01-07'', 1)])) = 6
   \<and> weekdayCountsOf 0 [(''2024-01-07'', 1)] = [1, 0, 0, 0, 0, 0, 0]
   \<and> mostActiveDay (buildWeekdayActivity (weekdayCountsOf 0 [(''2024-01-07'', 1)])) = 0"
  by (simp add: parse_sunday weekdayCountsOf_def addWeekday_def getDay_def msPerDay_def
      buildWeekdayActivity_def Let_def upt_conv_Cons)


lemma sunday_seen_from_west:
  assumes "- 1440 \<le> tzOffset" "tzOffset < 0"
  shows "getDay tzOffset 1704585600000 = 6"
proof -
  have "(1704585600000 + tzOffset * 60000) div 86400000 = 19728"
  proof (rule int_div_pos_eq)
    show "1704585600000 + tzOffset * 60000 = 86400000 * 19728 + (86400000 + tzOffset * 60000)"
      by simp
    show "0 \<le> 86400000 + tzOffset * 60000" using assms by simp
    show "86400000 + tzOffset * 60000 < 86400000" using assms by simp
  qed
  then show ?thesis by (simp add: getDay_def msPerDay_def)
qed

lemma sunday_seen_from_east:
  assumes "0 \<le> tzOffset" "tzOffset < 1440"
  shows "getDay tzOffset 1704585600000 = 0"
proof -
  have "(1704585600000 + tzOffset * 60000) div 86400000 = 19729"
  proof (rule int_div_pos_eq)
    show "1704585600000 + tzOffset * 60000 = 86400000 * 19729 + tzOffset * 60000"
      by simp
    show "0 \<le> tzOffset * 60000" using assms by simp
    show "tzOffset * 60000 < 86400000" using assms by simp
  qed
  then show ?thesis by (simp add: getDay_def msPerDay_def)
qed

subsection \<open>Streaks\<close>

lemma of_char_digit_char: "d < 10 \<Longrightarrow> of_char (digit_char d) = 48 + d"
  by (simp add: digit_char_def)

lemma digit_value_digit_char: "d < 10 \<Longrightarrow> digit_value (digit_char d) = d"
  by (simp add: digit_value_def of_char_digit_char)

lemma is_digit_digit_char: "d < 10 \<Longrightarrow> is_digit (digit_char d)"
  by (simp add: is_digit_def less_eq_char_def of_char_digit_char)

lemma digit_char_less_iff: "a < 10 \<Longrightarrow> b < 10 \<Longrightarrow> digit_char a < digit_char b \<longleftrightarrow> a < b"
  by (simp add: less_char_def of_char_digit_char)

lemma digit_char_eq_iff: "a < 10 \<Longrightarrow> b < 10 \<Longrightarrow> digit_char a = digit_char b \<longleftrightarrow> a = b"
  by (metis digit_value_digit_char)

lemma dash_not_digit: "\<not> is_digit CHR ''-''"
  by (simp add: is_digit_def)

lemma digits_string_of_nat: "list_all is_digit (string_of_nat n)"
  by (induction n rule: string_of_nat.induct)
     (subst string_of_nat.simps, simp add: is_digit_digit_char)

lemma string_of_nat_not_Nil: "string_of_nat n \<noteq> []"
  by (subst string_of_nat.simps) simp

lemma number_of_digits_snoc:
  "number_of_digits (ds @ [c]) = 10 * number_of_digits ds + digit_value c"
  by (simp add: number_of_digits_def)

lemma number_of_digits_string_of_nat: "number_of_digits (string_of_nat n) = n"
proof (induction n rule: string_of_nat.induct)
  case (1 n)
  show ?case
  proof (cases "n < 10")
    case True
    then show ?thesis
      by (subst string_of_nat.simps) (simp add: number_of_digits_def digit_value_digit_char)
  next
    case False
    with 1 show ?thesis
      by (subst string_of_nat.simps)
         (simp add: number_of_digits_snoc digit_value_digit_char)
  qed
qed

lemma string_of_nat_inject: "string_of_nat a = string_of_nat b \<Longrightarrow> a = b"
  by (metis number_of_digits_string_of_nat)

lemma string_of_int_inject:
  assumes "string_of_int a = string_of_int b"
  shows "a = b"
proof -
  have head: "hd (string_of_nat n) \<noteq> CHR ''-''" for n
  proof -
    have "is_digit (hd (string_of_nat n))"
      using digits_string_of_nat [of n] string_of_nat_not_Nil [of n]
      by (cases "string_of_nat n") simp_all
    then show ?thesis using dash_not_digit by metis
  qed
  consider (nn) "a < 0" "b < 0" | (np) "a < 0" "0 \<le> b" | (pn) "0 \<le> a" "b < 0"
    | (pp) "0 \<le> a" "0 \<le> b"
    by linarith
  then show ?thesis
  proof cases
    case nn
    with assms have "nat (- a) = nat (- b)"
      by (simp add: string_of_int_def string_of_nat_inject)
    with nn show ?thesis by simp
  next
    case np
    with assms have "CHR ''-'' # string_of_nat (nat (- a)) = string_of_nat (nat b)"
      by (simp add: string_of_int_def)
    then have "hd (string_of_nat (nat b)) = CHR ''-''"
      by (metis list.sel(1))
    with head show ?thesis by blast
  next
    case pn
    with assms have "string_of_nat (nat a) = CHR ''-'' # string_of_nat (nat (- b))"
      by (simp add: string_of_int_def)
    then have "hd (string_of_nat (nat a)) = CHR ''-''"
      by (metis list.sel(1))
    with head show ?thesis by blast
  next
    case pp
    with assms have "nat a = nat b"
      by (simp add: string_of_int_def string_of_nat_inject)
    with pp show ?thesis by simp
  qed
qed

lemma digit_char_zero: "digit_char 0 = CHR ''0''"
  by code_simp

lemma string_of_nat_one_digit: "n < 10 \<Longrightarrow> string_of_nat n = [digit_char n]"
  by (subst string_of_nat.simps) simp

lemma string_of_nat_two_digits:
  "10 \<le> n \<Longrightarrow> n < 100 \<Longrightarrow> string_of_nat n = [digit_char (n div 10), digit_char (n mod 10)]"
  by (subst string_of_nat.simps) (simp add: string_of_nat_one_digit)

lemma padStart2_string_of_nat:
  "n < 100 \<Longrightarrow> padStart2 (string_of_nat n) = [digit_char (n div 10), digit_char (n mod 10)]"
proof (cases "n < 10")
  case True
  then show ?thesis
    by (simp add: padStart2_def string_of_nat_one_digit digit_char_zero)
next
  case False
  moreover assume "n < 100"
  ultimately show ?thesis
    by (simp add: padStart2_def string_of_nat_two_digits)
qed

lemma length_string_of_nat_four:
  assumes "1000 \<le> n" "n \<le> 9999"
  shows "length (string_of_nat n) = 4"
proof -
  have "string_of_nat n = string_of_nat (n div 10) @ [digit_char (n mod 10)]"
    using assms by (subst string_of_nat.simps) simp
  moreover have "string_of_nat (n div 10)
      = string_of_nat (n div 10 div 10) @ [digit_char (n div 10 mod 10)]"
    using assms by (subst string_of_nat.simps) simp
  moreover have "10 \<le> n div 10 div 10" "n div 10 div 10 < 100"
    using assms by simp_all
  ultimately show ?thesis
    by (simp add: string_of_nat_two_digits)
qed


lemma days_in_month_le: "days_in_month y m \<le> 31"
  by (simp add: days_in_month_def)

lemma formatDateKey_shape:
  assumes "valid_Date date"
  shows "formatDateKey date =
           string_of_int (getFullYear date)
             @ [CHR ''-'', digit_char ((getMonth date + 1) div 10),
                digit_char ((getMonth date + 1) mod 10), CHR ''-'',
                digit_char (getDate date div 10), digit_char (getDate date mod 10)]"
proof -
  have "getMonth date + 1 < 100"
    using assms by (simp add: valid_Date_def)
  moreover have "getDate date < 100"
    using assms days_in_month_le [of "getFullYear date" "getMonth date + 1"]
    by (simp add: valid_Date_def)
  ultimately show ?thesis
    by (simp add: formatDateKey_def Let_def padStart2_string_of_nat)
qed

lemma two_digits_eq:
  assumes "a < 100" "b < 100" "a div 10 = b div 10" "a mod 10 = b mod 10"
  shows "(a::nat) = b"
  using assms by (metis div_mult_mod_eq)

lemma append_same_length_eq:
  "xs @ us = ys @ vs \<Longrightarrow> length us = length vs \<Longrightarrow> xs = ys \<and> us = vs"
  by simp

lemma formatDateKey_inject:
  assumes "valid_Date a" "valid_Date b" "formatDateKey a = formatDateKey b"
  shows "a = b"
proof -
  have bounds: "getMonth a + 1 < 100" "getMonth b + 1 < 100" "getDate a < 100" "getDate b < 100"
    using assms(1,2) days_in_month_le [of "getFullYear a" "getMonth a + 1"]
      days_in_month_le [of "getFullYear b" "getMonth b + 1"]
    by (simp_all add: valid_Date_def)
  have "string_of_int (getFullYear a)
          @ [CHR ''-'', digit_char ((getMonth a + 1) div 10),
             digit_char ((getMonth a + 1) mod 10), CHR ''-'',
             digit_char (getDate a div 10), digit_char (getDate a mod 10)]
      = string_of_int (getFullYear b)
          @ [CHR ''-'', digit_char ((getMonth b + 1) div 10),
             digit_char ((getMonth b + 1) mod 10), CHR ''-'',
             digit_char (getDate b div 10), digit_char (getDate b mod 10)]"
    using assms(3) unfolding formatDateKey_shape [OF assms(1)] formatDateKey_shape [OF assms(2)] .
  then have "string_of_int (getFullYear a) = string_of_int (getFullYear b)
      \<and> [CHR ''-'', digit_char ((getMonth a + 1) div 10),
             digit_char ((getMonth a + 1) mod 10), CHR ''-'',
             digit_char (getDate a div 10), digit_char (getDate a mod 10)]
        = [CHR ''-'', digit_char ((getMonth b + 1) div 10),
             digit_char ((getMonth b + 1) mod 10), CHR ''-'',
             digit_char (getDate b div 10), digit_char (getDate b mod 10)]"
    by (rule append_same_length_eq) simp
  then have parts: "string_of_int (getFullYear a) = string_of_int (getFullYear b)"
    "digit_char ((getMonth a + 1) div 10) = digit_char ((getMonth b + 1) div 10)"
    "digit_char ((getMonth a + 1) mod 10) = digit_char ((getMonth b + 1) mod 10)"
    "digit_char (getDate a div 10) = digit_char (getDate b div 10)"
    "digit_char (getDate a mod 10) = digit_char (getDate b mod 10)"
    by simp_all
  have year: "getFullYear a = getFullYear b"
    using parts(1) by (rule string_of_int_inject)
  have m: "(getMonth a + 1) div 10 = (getMonth b + 1) div 10"
    "(getMonth a + 1) mod 10 = (getMonth b + 1) mod 10"
    using parts(2,3) bounds by (simp_all add: digit_char_eq_iff)
  have "getMonth a + 1 = getMonth b + 1"
    by (rule two_digits_eq [OF bounds(1) bounds(2) m])
  then have month: "getMonth a = getMonth b" by simp
  have d: "getDate a div 10 = getDate b div 10" "getDate a mod 10 = getDate b mod 10"
    using parts(4,5) bounds by (simp_all add: digit_char_eq_iff)
  have day: "getDate a = getDate b"
    by (rule two_digits_eq [OF bounds(3) bounds(4) d])
  from year month day show ?thesis by simp
qed


lemma parseDate_formatDateKey:
  assumes "valid_Date date" "1000 \<le> getFullYear date" "getFullYear date \<le> 9999"
  shows "parseDate (formatDateKey date) =
           Some (days_from_civil (getFullYear date) (getMonth date + 1) (getDate date) * msPerDay)"
proof -
  define y where "y = getFullYear date"
  define m where "m = getMonth date + 1"
  define d where "d = getDate date"
  have bounds: "m < 100" "d < 100"
    using assms(1) days_in_month_le [of y m] by (simp_all add: valid_Date_def y_def m_def d_def)
  have year: "string_of_int y = string_of_nat (nat y)"
    using assms(2) by (simp add: string_of_int_def y_def)
  have "length (string_of_nat (nat y)) = 4"
    using assms(2,3) by (intro length_string_of_nat_four) (simp_all add: y_def)
  then obtain a b c e where ys: "string_of_nat (nat y) = [a, b, c, e]"
    by (auto simp: length_Suc_conv eval_nat_numeral)
  have digits: "is_digit a" "is_digit b" "is_digit c" "is_digit e"
    using digits_string_of_nat [of "nat y"] by (simp_all add: ys)
  have "number_of_digits [a, b, c, e] = nat y"
    using number_of_digits_string_of_nat [of "nat y"] unfolding ys .
  moreover have "0 \<le> y" using assms(2) by (simp add: y_def)
  ultimately have yval: "int (number_of_digits [a, b, c, e]) = y" by simp
  have key: "formatDateKey date =
      [a, b, c, e, CHR ''-'', digit_char (m div 10), digit_char (m mod 10), CHR ''-'',
       digit_char (d div 10), digit_char (d mod 10)]"
    unfolding formatDateKey_shape [OF assms(1)]
    by (simp only: y_def [symmetric] m_def [symmetric] d_def [symmetric] year ys append.simps)
  have mval: "number_of_digits [digit_char (m div 10), digit_char (m mod 10)] = m"
    using bounds by (simp add: number_of_digits_def digit_value_digit_char)
  have dval: "number_of_digits [digit_char (d div 10), digit_char (d mod 10)] = d"
    using bounds by (simp add: number_of_digits_def digit_value_digit_char)
  have mdigits: "is_digit (digit_char (m div 10))" "is_digit (digit_char (m mod 10))"
    "is_digit (digit_char (d div 10))" "is_digit (digit_char (d mod 10))"
    using bounds by (simp_all add: is_digit_digit_char)
  have ok: "1 \<le> m" "m \<le> 12" "1 \<le> d" "d \<le> days_in_month y m"
    using assms(1) by (simp_all add: valid_Date_def y_def m_def d_def)
  have "parseDate [a, b, c, e, CHR ''-'', digit_char (m div 10), digit_char (m mod 10),
          CHR ''-'', digit_char (d div 10), digit_char (d mod 10)]
        = Some (days_from_civil y m d * msPerDay)"
    using digits mdigits ok by (simp add: parseDate_def Let_def yval mval dval)
  then show ?thesis
    by (simp only: key y_def m_def d_def)
qed

lemma append_less_append: "xs @ ys < xs @ zs \<longleftrightarrow> ys < (zs :: 'a :: linorder list)"
  by (induction xs) simp_all

lemma two_digits_less:
  assumes "a < 100" "b < 100"
  shows "digit_char (a div 10) # digit_char (a mod 10) # xs
           < digit_char (b div 10) # digit_char (b mod 10) # ys
         \<longleftrightarrow> a < b \<or> (a = b \<and> xs < ys)"
proof -
  have small: "a div 10 < 10" "b div 10 < 10" "a mod 10 < 10" "b mod 10 < 10"
    using assms by simp_all
  have a: "a = 10 * (a div 10) + a mod 10" and b: "b = 10 * (b div 10) + b mod 10"
    by simp_all
  have lt: "a < b \<longleftrightarrow> a div 10 < b div 10 \<or> (a div 10 = b div 10 \<and> a mod 10 < b mod 10)"
    using a b small by linarith
  have eq: "a = b \<longleftrightarrow> a div 10 = b div 10 \<and> a mod 10 = b mod 10"
    using a b by metis
  have "digit_char (a div 10) # digit_char (a mod 10) # xs
           < digit_char (b div 10) # digit_char (b mod 10) # ys
     \<longleftrightarrow> a div 10 < b div 10 \<or> (a div 10 = b div 10 \<and>
           (a mod 10 < b mod 10 \<or> (a mod 10 = b mod 10 \<and> xs < ys)))"
    using small by (simp add: digit_char_less_iff digit_char_eq_iff)
  also have "\<dots> \<longleftrightarrow> a < b \<or> (a = b \<and> xs < ys)"
    unfolding lt eq by blast
  finally show ?thesis .
qed

lemma formatDateKey_less:
  assumes "valid_Date a" "valid_Date b" "getFullYear a = getFullYear b"
    and "getMonth a < getMonth b \<or> (getMonth a = getMonth b \<and> getDate a < getDate b)"
  shows "formatDateKey a < formatDateKey b"
proof -
  define ma where "ma = getMonth a + 1"
  define mb where "mb = getMonth b + 1"
  define da where "da = getDate a"
  define db where "db = getDate b"
  have bounds: "ma < 100" "mb < 100" "da < 100" "db < 100"
    using assms(1,2) days_in_month_le [of "getFullYear a" "getMonth a + 1"]
      days_in_month_le [of "getFullYear b" "getMonth b + 1"]
    by (simp_all add: valid_Date_def ma_def mb_def da_def db_def)
  have order: "ma < mb \<or> (ma = mb \<and> da < db)"
    using assms(4) by (simp add: ma_def mb_def da_def db_def)
  have days: "[digit_char (da div 10), digit_char (da mod 10)]
                < [digit_char (db div 10), digit_char (db mod 10)] \<longleftrightarrow> da < db"
    using two_digits_less [OF bounds(3) bounds(4), of "[]" "[]"] by simp
  have "digit_char (ma div 10) # digit_char (ma mod 10)
           # [CHR ''-'', digit_char (da div 10), digit_char (da mod 10)]
        < digit_char (mb div 10) # digit_char (mb mod 10)
           # [CHR ''-'', digit_char (db div 10), digit_char (db mod 10)]"
    unfolding two_digits_less [OF bounds(1) bounds(2)] using order days by simp
  then have "[CHR ''-'', digit_char (ma div 10), digit_char (ma mod 10), CHR ''-'',
              digit_char (da div 10), digit_char (da mod 10)]
           < [CHR ''-'', digit_char (mb div 10), digit_char (mb mod 10), CHR ''-'',
              digit_char (db div 10), digit_char (db mod 10)]"
    by simp
  then have "string_of_int (getFullYear a)
             @ [CHR ''-'', digit_char (ma div 10), digit_char (ma mod 10), CHR ''-'',
              digit_char (da div 10), digit_char (da mod 10)]
           < string_of_int (getFullYear a)
             @ [CHR ''-'', digit_char (mb div 10), digit_char (mb mod 10), CHR ''-'',
              digit_char (db div 10), digit_char (db mod 10)]"
    by (simp only: append_less_append)
  then show ?thesis
    unfolding formatDateKey_shape [OF assms(1)] formatDateKey_shape [OF assms(2)]
    by (simp only: ma_def mb_def da_def db_def assms(3))
qed

lemma days_before_month_step:
  assumes "1 \<le> m" "m < 12"
  shows "days_before_month y (m + 1) = days_before_month y m + days_in_month y m"
proof -
  have "m = 1 \<or> m = 2 \<or> m = 3 \<or> m = 4 \<or> m = 5 \<or> m = 6 \<or> m = 7 \<or> m = 8 \<or> m = 9
          \<or> m = 10 \<or> m = 11"
    using assms by presburger
  then show ?thesis
    by (elim disjE) (simp_all add: days_before_month_def days_in_month_def)
qed

lemma days_before_month_mono:
  assumes "1 \<le> m" "m < m'" "m' \<le> 12"
  shows "days_before_month y m + days_in_month y m \<le> days_before_month y m'"
proof -
  have "Suc m \<le> m'" using assms(2) by simp
  then show ?thesis
    using assms(3)
  proof (induction m' rule: dec_induct)
    case base
    then show ?case using days_before_month_step [of m y] assms(1) by simp
  next
    case (step n)
    then have "days_before_month y (n + 1) = days_before_month y n + days_in_month y n"
      using assms(1) by (intro days_before_month_step) simp_all
    with step show ?case by simp
  qed
qed

lemma dayNumber_less:
  assumes "valid_Date a" "valid_Date b" "getFullYear a = getFullYear b"
    and "getMonth a < getMonth b \<or> (getMonth a = getMonth b \<and> getDate a < getDate b)"
  shows "dayNumber a < dayNumber b"
proof -
  from assms(4) show ?thesis
  proof
    assume less: "getMonth a < getMonth b"
    have "days_before_month (getFullYear a) (getMonth a + 1)
            + days_in_month (getFullYear a) (getMonth a + 1)
          \<le> days_before_month (getFullYear a) (getMonth b + 1)"
      using less assms(2) by (intro days_before_month_mono) (simp_all add: valid_Date_def)
    moreover have "getDate a \<le> days_in_month (getFullYear a) (getMonth a + 1)" "1 \<le> getDate b"
      using assms(1,2) by (simp_all add: valid_Date_def)
    ultimately show ?thesis
      using assms(3) by (simp add: dayNumber_def days_from_civil_def)
  next
    assume "getMonth a = getMonth b \<and> getDate a < getDate b"
    then show ?thesis
      using assms(3) by (simp add: dayNumber_def days_from_civil_def)
  qed
qed

lemma days_in_month_ge: "28 \<le> days_in_month y m"
  by (simp add: days_in_month_def)

lemma valid_minusOneDay:
  assumes "valid_Date date"
  shows "valid_Date (minusOneDay date)"
proof -
  consider (day) "1 < getDate date"
    | (month) "\<not> 1 < getDate date" "0 < getMonth date"
    | (year) "\<not> 1 < getDate date" "\<not> 0 < getMonth date"
    by blast
  then show ?thesis
  proof cases
    case day
    then show ?thesis using assms by (auto simp: minusOneDay_def valid_Date_def)
  next
    case month
    then show ?thesis
      using assms days_in_month_ge [of "getFullYear date" "getMonth date"]
      by (auto simp: minusOneDay_def valid_Date_def)
  next
    case year
    then show ?thesis
      by (simp add: minusOneDay_def valid_Date_def days_in_month_def)
  qed
qed

lemma dayNumber_minusOneDay:
  assumes "valid_Date date" "getFullYear (minusOneDay date) = getFullYear date"
  shows "dayNumber (minusOneDay date) = dayNumber date - 1"
proof -
  consider (day) "1 < getDate date"
    | (month) "\<not> 1 < getDate date" "0 < getMonth date"
    | (year) "\<not> 1 < getDate date" "\<not> 0 < getMonth date"
    by blast
  then show ?thesis
  proof cases
    case day
    then show ?thesis by (simp add: minusOneDay_def dayNumber_def days_from_civil_def)
  next
    case month
    have one: "getDate date = 1" using month(1) assms(1) by (simp add: valid_Date_def)
    have "days_before_month (getFullYear date) (getMonth date + 1)
            = days_before_month (getFullYear date) (getMonth date)
                + days_in_month (getFullYear date) (getMonth date)"
      using month(2) assms(1) by (intro days_before_month_step) (simp_all add: valid_Date_def)
    then show ?thesis
      using month one by (simp add: minusOneDay_def dayNumber_def days_from_civil_def)
  next
    case year
    then have "getFullYear (minusOneDay date) = getFullYear date - 1"
      by (simp add: minusOneDay_def)
    with assms(2) show ?thesis by simp
  qed
qed

lemma Math_round_days: "Math_round (of_int (k * msPerDay) / of_int msPerDay) = k"
proof -
  have "(of_int (k * msPerDay) / of_int msPerDay :: rat) = of_int k"
    by (simp add: msPerDay_def)
  moreover have "\<lfloor>(of_int k :: rat) + 1 / 2\<rfloor> = k"
    by (rule floor_unique) simp_all
  ultimately show ?thesis by (simp only: Math_round_def)
qed

lemma diffDays_formatDateKey:
  assumes "valid_Date a" "1000 \<le> getFullYear a" "getFullYear a \<le> 9999"
    and "valid_Date b" "1000 \<le> getFullYear b" "getFullYear b \<le> 9999"
  shows "diffDays (formatDateKey a) (formatDateKey b) = Some (dayNumber b - dayNumber a)"
proof -
  have pa: "parseDate (formatDateKey a) = Some (dayNumber a * msPerDay)"
    unfolding dayNumber_def using assms(1-3) by (rule parseDate_formatDateKey)
  have pb: "parseDate (formatDateKey b) = Some (dayNumber b * msPerDay)"
    unfolding dayNumber_def using assms(4-6) by (rule parseDate_formatDateKey)
  have diff: "dayNumber b * msPerDay - dayNumber a * msPerDay
                = (dayNumber b - dayNumber a) * msPerDay"
    by (simp add: algebra_simps)
  have "diffDays (formatDateKey a) (formatDateKey b)
      = Some (Math_round (of_int (dayNumber b * msPerDay - dayNumber a * msPerDay)
                            / of_int msPerDay))"
    by (simp add: diffDays_def pa pb Let_def del: of_int_diff of_int_mult)
  then show ?thesis
    by (simp only: diff Math_round_days)
qed

lemma has_key_iff: "map_of al k \<noteq> None \<longleftrightarrow> k \<in> fst ` set al"
  by (simp add: map_of_eq_None_iff)

lemma key_year:
  assumes wf: "\<forall>key \<in> fst ` set al.
                 \<exists>date. valid_Date date \<and> getFullYear date = year \<and> key = formatDateKey date"
    and "valid_Date date" "formatDateKey date \<in> fst ` set al"
  shows "getFullYear date = year"
proof -
  from wf assms(3) obtain date' where d: "valid_Date date'" "getFullYear date' = year"
    "formatDateKey date = formatDateKey date'"
    by blast
  from assms(2) d(1) d(3) have "date = date'" by (rule formatDateKey_inject)
  with d(2) show ?thesis by simp
qed

lemma dayNumber_ge_first:
  assumes "valid_Date date"
  shows "dayNumber \<lparr>getFullYear = getFullYear date, getMonth = 0, getDate = 1\<rparr> \<le> dayNumber date"
proof (cases "getMonth date = 0 \<and> getDate date = 1")
  case True
  then have "date = \<lparr>getFullYear = getFullYear date, getMonth = 0, getDate = 1\<rparr>" by simp
  then show ?thesis by simp
next
  case False
  have first: "valid_Date \<lparr>getFullYear = getFullYear date, getMonth = 0, getDate = 1\<rparr>"
    by (simp add: valid_Date_def days_in_month_def)
  have "dayNumber \<lparr>getFullYear = getFullYear date, getMonth = 0, getDate = 1\<rparr> < dayNumber date"
    using first assms
  proof (rule dayNumber_less)
    show "getFullYear \<lparr>getFullYear = getFullYear date, getMonth = 0, getDate = 1\<rparr>
            = getFullYear date"
      by simp
    show "getMonth \<lparr>getFullYear = getFullYear date, getMonth = 0, getDate = 1\<rparr> < getMonth date
        \<or> (getMonth \<lparr>getFullYear = getFullYear date, getMonth = 0, getDate = 1\<rparr> = getMonth date
            \<and> getDate \<lparr>getFullYear = getFullYear date, getMonth = 0, getDate = 1\<rparr>
                 < getDate date)"
      using False assms by (auto simp: valid_Date_def)
  qed
  then show ?thesis by simp
qed

lemma streakBackwardsLoop_run:
  assumes wf: "\<forall>key \<in> fst ` set al.
                 \<exists>date. valid_Date date \<and> getFullYear date = year \<and> key = formatDateKey date"
    and "valid_Date start" "formatDateKey start \<in> fst ` set al"
  shows "\<exists>n. streakBackwardsLoop al start streak = Some (streak + n)
           \<and> (\<forall>j \<le> n. \<exists>date. valid_Date date \<and> formatDateKey date \<in> fst ` set al
                         \<and> dayNumber date = dayNumber start - int j)"
  using assms(2,3)
proof (induction "nat (dayNumber start
                        - dayNumber \<lparr>getFullYear = year, getMonth = 0, getDate = 1\<rparr>)"
        arbitrary: start streak rule: less_induct)
  case less
  let ?first = "\<lparr>getFullYear = year, getMonth = 0, getDate = 1\<rparr>"
  let ?prev = "minusOneDay start"
  have year_start: "getFullYear start = year"
    using wf less.prems by (rule key_year)
  show ?case
  proof (cases "formatDateKey ?prev \<in> fst ` set al")
    case False
    then have "map_of al (formatDateKey ?prev) = None"
      by (simp add: map_of_eq_None_iff)
    then have "streakBackwardsLoop al start streak = Some (streak + 0)"
      by (subst streakBackwardsLoop.simps) simp
    moreover have "\<forall>j \<le> (0::nat). \<exists>date. valid_Date date \<and> formatDateKey date \<in> fst ` set al
                         \<and> dayNumber date = dayNumber start - int j"
      using less.prems by auto
    ultimately show ?thesis by blast
  next
    case True
    have valid_prev: "valid_Date ?prev"
      using less.prems(1) by (rule valid_minusOneDay)
    have year_prev: "getFullYear ?prev = year"
      using wf valid_prev True by (rule key_year)
    have day_prev: "dayNumber ?prev = dayNumber start - 1"
      using less.prems(1) year_prev year_start by (intro dayNumber_minusOneDay) simp_all
    have "dayNumber ?first \<le> dayNumber ?prev"
      using dayNumber_ge_first [OF valid_prev] year_prev by simp
    then have smaller: "nat (dayNumber ?prev - dayNumber ?first)
                          < nat (dayNumber start - dayNumber ?first)"
      using day_prev by simp
    from less.hyps [OF smaller valid_prev True, of "streak + 1"]
    obtain n where n: "streakBackwardsLoop al ?prev (streak + 1) = Some (streak + 1 + n)"
      and run: "\<forall>j \<le> n. \<exists>date. valid_Date date \<and> formatDateKey date \<in> fst ` set al
                         \<and> dayNumber date = dayNumber ?prev - int j"
      by blast
    obtain v where "map_of al (formatDateKey ?prev) = Some v"
      using True by (metis has_key_iff not_None_eq)
    then have "streakBackwardsLoop al start streak = Some (streak + Suc n)"
      using n by (subst streakBackwardsLoop.simps) simp
    moreover have "\<exists>date. valid_Date date \<and> formatDateKey date \<in> fst ` set al
                         \<and> dayNumber date = dayNumber start - int j" if "j \<le> Suc n" for j
    proof (cases j)
      case 0
      then show ?thesis using less.prems by auto
    next
      case (Suc i)
      with that have "i \<le> n" by simp
      with run obtain date where "valid_Date date" "formatDateKey date \<in> fst ` set al"
        "dayNumber date = dayNumber ?prev - int i"
        by blast
      then show ?thesis using day_prev Suc by auto
    qed
    ultimately show ?thesis by blast
  qed
qed

lemma streakStep_consecutive:
  assumes "diffDays (xs ! (i - 1)) (xs ! i) = Some 1"
  shows "tempStreak (streakStep xs st i) = tempStreak st + 1"
    and "StreakState.maxStreak (streakStep xs st i)
           = max (StreakState.maxStreak st) (tempStreak st + 1)"
  using assms by (simp_all add: streakStep_def Let_def)

lemma streakStep_gap:
  assumes "diffDays (xs ! (i - 1)) (xs ! i) \<noteq> Some 1"
  shows "tempStreak (streakStep xs st i) = 1"
    and "StreakState.maxStreak (streakStep xs st i) = StreakState.maxStreak st"
  using assms by (simp_all add: streakStep_def)

lemma streakLoop_runs:
  assumes diff: "\<And>i. 1 \<le> i \<Longrightarrow> i < length xs \<Longrightarrow>
                   diffDays (xs ! (i - 1)) (xs ! i) = Some (dn (xs ! i) - dn (xs ! (i - 1)))"
    and j: "j < length xs"
    and r: "r \<le> j + 1" "\<forall>q < r. dn (xs ! (j - q)) = dn (xs ! j) - int q"
  shows "r \<le> StreakState.maxStreak (streakLoop xs)"
proof -
  define run where "run = (\<lambda>j r. r \<le> j + 1 \<and> (\<forall>q < r. dn (xs ! (j - q)) = dn (xs ! j) - int q))"
  define st where "st = (\<lambda>k. foldl (streakStep xs)
       \<lparr>StreakState.maxStreak = 1, tempStreak = 1, tempStreakStart = 0, maxStreakStart = 0,
        maxStreakEnd = 0\<rparr>
       [1..<k])"
  have shorter: "run (k - 1) (r - 1)" "dn (xs ! k) - dn (xs ! (k - 1)) = 1"
    if "run k r" "2 \<le> r" "1 \<le> k" for k r
  proof -
    from that have one: "dn (xs ! (k - 1)) = dn (xs ! k) - 1"
      by (auto simp: run_def dest: spec [of _ 1])
    then show "dn (xs ! k) - dn (xs ! (k - 1)) = 1" by simp
    have tail: "\<forall>q < r - 1. dn (xs ! (k - 1 - q)) = dn (xs ! (k - 1)) - int q"
    proof (intro allI impI)
      fix q assume "q < r - 1"
      with \<open>run k r\<close> have "dn (xs ! (k - Suc q)) = dn (xs ! k) - int (Suc q)"
        by (simp add: run_def)
      with one show "dn (xs ! (k - 1 - q)) = dn (xs ! (k - 1)) - int q" by simp
    qed
    have "r \<le> k + 1"
      using that(1) by (simp add: run_def)
    then have bound: "r - 1 \<le> k - 1 + 1"
      using that(3) by linarith
    show "run (k - 1) (r - 1)"
      unfolding run_def using tail bound by (rule conjI [rotated])
  qed
  have inv: "1 \<le> tempStreak (st k) \<and> tempStreak (st k) \<le> StreakState.maxStreak (st k)
      \<and> (\<forall>r. run (k - 1) r \<longrightarrow> r \<le> tempStreak (st k))
      \<and> (\<forall>j < k. \<forall>r. run j r \<longrightarrow> r \<le> StreakState.maxStreak (st k))"
    if "1 \<le> k" "k \<le> length xs" for k
    using that
  proof (induction k rule: dec_induct)
    case base
    have "r \<le> 1" if "run 0 r" for r using that by (simp add: run_def)
    then show ?case by (auto simp: st_def)
  next
    case (step k)
    then have IH: "1 \<le> tempStreak (st k)" "tempStreak (st k) \<le> StreakState.maxStreak (st k)"
      "\<And>r. run (k - 1) r \<Longrightarrow> r \<le> tempStreak (st k)"
      "\<And>j r. j < k \<Longrightarrow> run j r \<Longrightarrow> r \<le> StreakState.maxStreak (st k)"
      by simp_all
    have k: "1 \<le> k" "k < length xs" using step by simp_all
    have next_state: "st (Suc k) = streakStep xs (st k) k"
      using k by (simp add: st_def)
    have d: "diffDays (xs ! (k - 1)) (xs ! k) = Some (dn (xs ! k) - dn (xs ! (k - 1)))"
      using k by (rule diff)
    show ?case
    proof (cases "dn (xs ! k) - dn (xs ! (k - 1)) = 1")
      case True
      then have d1: "diffDays (xs ! (k - 1)) (xs ! k) = Some 1" using d by simp
      have temp: "tempStreak (st (Suc k)) = tempStreak (st k) + 1"
        and maxs: "StreakState.maxStreak (st (Suc k))
                     = max (StreakState.maxStreak (st k)) (tempStreak (st k) + 1)"
        unfolding next_state using d1 by (rule streakStep_consecutive)+
      have ending: "r \<le> tempStreak (st k) + 1" if "run k r" for r
      proof (cases "2 \<le> r")
        case False
        then show ?thesis by simp
      next
        case True
        have "run (k - 1) (r - 1)" using that True k(1) by (rule shorter(1))
        then have "r - 1 \<le> tempStreak (st k)" by (rule IH(3))
        then show ?thesis by simp
      qed
      have "r \<le> StreakState.maxStreak (st (Suc k))" if "j < Suc k" "run j r" for j r
      proof (cases "j = k")
        case True
        with that ending show ?thesis by (simp add: maxs max.coboundedI2)
      next
        case False
        with that have "j < k" by simp
        then have "r \<le> StreakState.maxStreak (st k)" using that(2) by (rule IH(4))
        then show ?thesis by (simp add: maxs max.coboundedI1)
      qed
      then show ?thesis using temp maxs ending by simp
    next
      case False
      then have d1: "diffDays (xs ! (k - 1)) (xs ! k) \<noteq> Some 1" using d by simp
      have temp: "tempStreak (st (Suc k)) = 1"
        and maxs: "StreakState.maxStreak (st (Suc k)) = StreakState.maxStreak (st k)"
        unfolding next_state using d1 by (rule streakStep_gap)+
      have ending: "r \<le> 1" if "run k r" for r
      proof (rule ccontr)
        assume "\<not> r \<le> 1"
        then have "2 \<le> r" by simp
        with that have "dn (xs ! k) - dn (xs ! (k - 1)) = 1" using k(1) by (rule shorter(2))
        with False show False by simp
      qed
      have "r \<le> StreakState.maxStreak (st (Suc k))" if "j < Suc k" "run j r" for j r
      proof (cases "j = k")
        case True
        with that ending have "r \<le> 1" by simp
        with IH(1,2) show ?thesis by (simp add: maxs)
      next
        case False
        with that have "j < k" by simp
        then have "r \<le> StreakState.maxStreak (st k)" using that(2) by (rule IH(4))
        then show ?thesis by (simp add: maxs)
      qed
      then show ?thesis using temp maxs ending IH(1,2) by simp
    qed
  qed
  have "1 \<le> length xs" using j by simp
  from inv [OF this] have "\<forall>j < length xs. \<forall>r. run j r \<longrightarrow> r \<le> StreakState.maxStreak (st (length xs))"
    by simp
  moreover have "run j r" using r by (simp add: run_def)
  ultimately have "r \<le> StreakState.maxStreak (st (length xs))" using j by blast
  then show ?thesis by (simp add: st_def streakLoop_def)
qed

lemma consecutive_run:
  assumes mono: "\<And>i j. i < j \<Longrightarrow> j < length xs \<Longrightarrow> dn (xs ! i) < dn (xs ! j)"
    and j: "j < length xs"
    and present: "\<forall>q < r. \<exists>i < length xs. dn (xs ! i) = dn (xs ! j) - int q"
  shows "r \<le> j + 1 \<and> (\<forall>q < r. dn (xs ! (j - q)) = dn (xs ! j) - int q)"
proof -
  have weak: "dn (xs ! i) \<le> dn (xs ! k)" if "i \<le> k" "k < length xs" for i k
    using that mono [of i k] by (cases "i = k") auto
  have walk: "q \<le> j \<and> dn (xs ! (j - q)) = dn (xs ! j) - int q" if "q < r" for q
    using that
  proof (induction q)
    case 0
    then show ?case by simp
  next
    case (Suc q)
    then have IH: "q \<le> j" "dn (xs ! (j - q)) = dn (xs ! j) - int q" by simp_all
    from present Suc.prems obtain i where i: "i < length xs"
      "dn (xs ! i) = dn (xs ! j) - int (Suc q)"
      by blast
    have "i < j - q"
    proof (rule ccontr)
      assume "\<not> i < j - q"
      then have "dn (xs ! (j - q)) \<le> dn (xs ! i)" using i(1) by (intro weak) simp_all
      with i(2) IH(2) show False by simp
    qed
    then have less: "Suc q \<le> j" and le: "i \<le> j - Suc q" by simp_all
    have "dn (xs ! i) \<le> dn (xs ! (j - Suc q))"
      using le j by (intro weak) simp_all
    moreover have "dn (xs ! (j - Suc q)) < dn (xs ! (j - q))"
      using less j by (intro mono) simp_all
    ultimately have "dn (xs ! (j - Suc q)) = dn (xs ! j) - int (Suc q)"
      using i(2) IH(2) by simp
    with less show ?case by simp
  qed
  have "r \<le> j + 1"
  proof (cases r)
    case 0
    then show ?thesis by simp
  next
    case (Suc q)
    then have "q \<le> j" using walk [of q] by simp
    with Suc show ?thesis by simp
  qed
  with walk show ?thesis by blast
qed

lemma key_order_days:
  assumes "valid_Date a" "valid_Date b" "getFullYear a = getFullYear b"
    and "formatDateKey a < formatDateKey b"
  shows "dayNumber a < dayNumber b"
proof -
  consider (less) "getMonth a < getMonth b \<or> (getMonth a = getMonth b \<and> getDate a < getDate b)"
    | (same) "getMonth a = getMonth b" "getDate a = getDate b"
    | (greater) "getMonth b < getMonth a \<or> (getMonth b = getMonth a \<and> getDate b < getDate a)"
    by linarith
  then show ?thesis
  proof cases
    case less
    with assms(1-3) show ?thesis by (rule dayNumber_less)
  next
    case same
    with assms(3) have "a = b" by simp
    with assms(4) show ?thesis by simp
  next
    case greater
    have "formatDateKey b < formatDateKey a"
      using assms(2,1) assms(3) [symmetric] greater by (rule formatDateKey_less)
    with assms(4) show ?thesis by simp
  qed
qed

lemma formatDateKey_prefix:
  assumes "valid_Date date"
  shows "prefix (string_of_int (getFullYear date)) (formatDateKey date)"
  unfolding formatDateKey_shape [OF assms] by (rule prefixI) simp

lemma anchored_streak_le_max:
  assumes keys: "distinct (map fst dailyActivity)"
    and year: "1000 \<le> year" "year \<le> 9999"
    and wf: "\<forall>key \<in> fst ` set dailyActivity.
               \<exists>date. valid_Date date \<and> getFullYear date = year \<and> key = formatDateKey date"
    and start: "valid_Date start" "formatDateKey start \<in> fst ` set dailyActivity"
  shows "\<exists>current. countStreakBackwards dailyActivity start = Some current
           \<and> current \<le> StreakState.maxStreak (streakLoop (sort (map fst dailyActivity)))"
proof -
  define xs where "xs = sort (map fst dailyActivity)"
  define dn where "dn = (\<lambda>key. the (parseDate key) div msPerDay)"
  have set_xs: "set xs = fst ` set dailyActivity" by (simp add: xs_def)
  have sorted_xs: "sorted_wrt (<) xs"
    using keys by (simp add: xs_def strict_sorted_iff)
  have dn_key: "dn (formatDateKey date) = dayNumber date"
    if "valid_Date date" "getFullYear date = year" for date
  proof -
    have "parseDate (formatDateKey date) = Some (dayNumber date * msPerDay)"
      unfolding dayNumber_def using that year by (intro parseDate_formatDateKey) simp_all
    then show ?thesis by (simp add: dn_def msPerDay_def)
  qed
  have date_of: "\<exists>date. valid_Date date \<and> getFullYear date = year \<and> xs ! i = formatDateKey date"
    if "i < length xs" for i
  proof -
    from that have "xs ! i \<in> fst ` set dailyActivity"
      using set_xs nth_mem by blast
    with wf show ?thesis by blast
  qed
  have diff: "diffDays (xs ! (i - 1)) (xs ! i) = Some (dn (xs ! i) - dn (xs ! (i - 1)))"
    if "1 \<le> i" "i < length xs" for i
  proof -
    have "i - 1 < length xs" using that by simp
    from date_of [OF this] obtain a where a: "valid_Date a" "getFullYear a = year"
      "xs ! (i - 1) = formatDateKey a"
      by blast
    from date_of [OF that(2)] obtain b where b: "valid_Date b" "getFullYear b = year"
      "xs ! i = formatDateKey b"
      by blast
    have "diffDays (formatDateKey a) (formatDateKey b) = Some (dayNumber b - dayNumber a)"
      using a(1,2) b(1,2) year by (intro diffDays_formatDateKey) simp_all
    then show ?thesis
      unfolding a(3) b(3) dn_key [OF a(1,2)] dn_key [OF b(1,2)] .
  qed
  have mono: "dn (xs ! i) < dn (xs ! k)" if "i < k" "k < length xs" for i k
  proof -
    have "i < length xs" using that by simp
    from date_of [OF this] obtain a where a: "valid_Date a" "getFullYear a = year"
      "xs ! i = formatDateKey a"
      by blast
    from date_of [OF that(2)] obtain b where b: "valid_Date b" "getFullYear b = year"
      "xs ! k = formatDateKey b"
      by blast
    have "xs ! i < xs ! k"
      using sorted_xs that by (rule sorted_wrt_nth_less)
    then have "formatDateKey a < formatDateKey b" by (simp add: a(3) b(3))
    with a(1) b(1) have "dayNumber a < dayNumber b"
      using a(2) b(2) by (intro key_order_days) simp_all
    then show ?thesis
      unfolding a(3) b(3) dn_key [OF a(1,2)] dn_key [OF b(1,2)] .
  qed
  from streakBackwardsLoop_run [OF wf start, of 1]
  obtain n where n: "streakBackwardsLoop dailyActivity start 1 = Some (1 + n)"
    and run: "\<forall>q \<le> n. \<exists>date. valid_Date date \<and> formatDateKey date \<in> fst ` set dailyActivity
                         \<and> dayNumber date = dayNumber start - int q"
    by blast
  have year_start: "getFullYear start = year"
    using wf start by (rule key_year)
  from start(2) obtain j where j: "j < length xs" "xs ! j = formatDateKey start"
    using set_xs by (metis in_set_conv_nth)
  have dn_j: "dn (xs ! j) = dayNumber start"
    by (simp add: j(2) dn_key [OF start(1) year_start])
  have present: "\<forall>q < Suc n. \<exists>i < length xs. dn (xs ! i) = dn (xs ! j) - int q"
  proof (intro allI impI)
    fix q assume "q < Suc n"
    then have "q \<le> n" by simp
    with run obtain date where date: "valid_Date date"
      "formatDateKey date \<in> fst ` set dailyActivity" "dayNumber date = dayNumber start - int q"
      by blast
    have year_date: "getFullYear date = year"
      using wf date(1,2) by (rule key_year)
    from date(2) obtain i where i: "i < length xs" "xs ! i = formatDateKey date"
      using set_xs by (metis in_set_conv_nth)
    have "dn (xs ! i) = dn (xs ! j) - int q"
      by (simp add: i(2) dn_key [OF date(1) year_date] dn_j date(3))
    with i(1) show "\<exists>i < length xs. dn (xs ! i) = dn (xs ! j) - int q" by blast
  qed
  have "Suc n \<le> j + 1 \<and> (\<forall>q < Suc n. dn (xs ! (j - q)) = dn (xs ! j) - int q)"
    using mono j(1) present by (rule consecutive_run)
  then have "Suc n \<le> StreakState.maxStreak (streakLoop xs)"
    using diff j(1) by (intro streakLoop_runs [where dn = dn and j = j]) simp_all
  then show ?thesis
    using n by (simp add: countStreakBackwards_def xs_def)
qed

lemma date_keys_well_formed:
  assumes "map fst dailyActivity = map formatDateKey dates"
    and "list_all (\<lambda>date. valid_Date date \<and> getFullYear date = year) dates"
  shows "\<forall>key \<in> fst ` set dailyActivity.
           \<exists>date. valid_Date date \<and> getFullYear date = year \<and> key = formatDateKey date"
proof
  fix key assume "key \<in> fst ` set dailyActivity"
  then have "key \<in> set (map formatDateKey dates)"
    using assms(1) by (metis set_map)
  then obtain date where "date \<in> set dates" "key = formatDateKey date" by auto
  with assms(2) show "\<exists>date. valid_Date date \<and> getFullYear date = year \<and> key = formatDateKey date"
    by (auto simp: list_all_iff)
qed




end
